theory Spec2Isabelle
  imports Complex_Main
begin

section \<open>Data model (src/types/flow.ts)\<close>

text \<open>
  JavaScript strings are modelled as \<open>string\<close> (lists of 8-bit characters, read as the
  code units U+0000 to U+00FF), numbers as \<open>real\<close>, and an object used as a dictionary
  (\<open>EdgeParameters\<close>) as the list of its own properties in property order.
  A field typed \<open>string | null\<close> is a \<open>string option\<close>.
\<close>

type_synonym EdgeParameters = "(string \<times> string) list"

record FlowEdge =
  id :: string
  toNodeId :: string
  condition :: string
  parameters :: EdgeParameters

record FlowNode =
  id :: string
  description :: string
  prompt :: string
  edges :: "FlowEdge list"
  x :: real
  y :: real

record FlowState =
  nodes :: "FlowNode list"
  startNodeId :: "string option"

datatype ValidationErrorType = Error | Warning

record ValidationError =
  type :: ValidationErrorType
  nodeId :: "string option"
  edgeId :: "string option"
  field :: "string option"
  message :: string

text \<open>
  A value as \<open>JSON.parse\<close> returns it, and as \<open>JSON.stringify\<close> reads it: an object is
  the list of its own properties in property order.
\<close>

datatype json =
    JNull
  | JBool bool
  | JNumber real
  | JString string
  | JArray "json list"
  | JObject "(string \<times> json) list"

text \<open>Property access \<open>v.k\<close> on a parsed value that is not \<open>null\<close>; \<open>None\<close> is
  \<open>undefined\<close>. None of the keys the program reads is a property of an array, a string,
  a number or a boolean.\<close>

fun get :: "json \<Rightarrow> string \<Rightarrow> json option" where
  "get (JObject kvs) k = map_of kvs k"
| "get _ k = None"

fun has_key :: "string \<Rightarrow> json \<Rightarrow> bool" where
  "has_key k (JObject kvs) = (k \<in> fst ` set kvs)"
| "has_key k _ = False"


section \<open>Id helpers and grid (src/utils/flow.ts)\<close>

definition digit_char :: "nat \<Rightarrow> char" where
  "digit_char d =
     (if d = 0 then CHR ''0'' else if d = 1 then CHR ''1'' else if d = 2 then CHR ''2''
      else if d = 3 then CHR ''3'' else if d = 4 then CHR ''4'' else if d = 5 then CHR ''5''
      else if d = 6 then CHR ''6'' else if d = 7 then CHR ''7'' else if d = 8 then CHR ''8''
      else CHR ''9'')"

text \<open>The decimal numeral of a counter value, as a template literal prints it.\<close>

fun decimal :: "nat \<Rightarrow> string" where
  "decimal n = (if n < 10 then [digit_char n] else decimal (n div 10) @ [digit_char (n mod 10)])"

text \<open>
  \<open>_counter\<close> is a module-level variable; the functions that read it take its value and
  return the new one. \<open>generateNodeId\<close> and \<open>generateEdgeId\<close> both pre-increment it.
\<close>

definition generateNodeId :: "nat \<Rightarrow> string \<times> nat" where
  "generateNodeId counter = (''node_'' @ decimal (counter + 1), counter + 1)"

definition generateEdgeId :: "nat \<Rightarrow> string \<times> nat" where
  "generateEdgeId counter = (''edge_'' @ decimal (counter + 1), counter + 1)"

definition GRID :: real where
  "GRID = 20"

text \<open>\<open>Math.round\<close> rounds to the nearest integer, a tie towards plus infinity.\<close>

definition snapToGrid :: "real \<Rightarrow> real" where
  "snapToGrid v = of_int \<lfloor>v / GRID + 1 / 2\<rfloor> * GRID"


section \<open>Graph store (src/hooks/useFlowStore.ts)\<close>

text \<open>Each operation is the function it passes to \<open>setState\<close>: from the previous
  snapshot to the next one.\<close>

definition deleteNode :: "string \<Rightarrow> FlowState \<Rightarrow> FlowState" where
  "deleteNode i prev =
     \<lparr> nodes = map (\<lambda>n. n\<lparr>edges := filter (\<lambda>e. toNodeId e \<noteq> i) (edges n)\<rparr>)
                 (filter (\<lambda>n. FlowNode.id n \<noteq> i) (nodes prev)),
       startNodeId = (if startNodeId prev = Some i then None else startNodeId prev) \<rparr>"

text \<open>\<open>Partial<Pick<FlowNode, "id" | "description" | "prompt">>\<close>: a field is set or absent.\<close>

record NodePatch =
  patch_id :: "string option"
  patch_description :: "string option"
  patch_prompt :: "string option"

text \<open>The object spread \<open>{ ...n, ...patch }\<close>.\<close>

definition spread_node :: "FlowNode \<Rightarrow> NodePatch \<Rightarrow> FlowNode" where
  "spread_node n patch =
     n\<lparr> FlowNode.id := (case patch_id patch of None \<Rightarrow> FlowNode.id n | Some v \<Rightarrow> v),
        description := (case patch_description patch of None \<Rightarrow> description n | Some v \<Rightarrow> v),
        prompt := (case patch_prompt patch of None \<Rightarrow> prompt n | Some v \<Rightarrow> v) \<rparr>"

text \<open>Truthiness of a value typed \<open>string | null | undefined\<close>: null, undefined and the
  empty string are falsy.\<close>

definition truthy :: "string option \<Rightarrow> bool" where
  "truthy newId = (case newId of None \<Rightarrow> False | Some v \<Rightarrow> v \<noteq> [])"

definition updateNode :: "string \<Rightarrow> NodePatch \<Rightarrow> FlowState \<Rightarrow> FlowState" where
  "updateNode i patch prev =
     (let newId = patch_id patch in
      \<lparr> nodes = map (\<lambda>n.
            if FlowNode.id n = i then spread_node n patch
            else if truthy newId \<and> (\<exists>e \<in> set (edges n). toNodeId e = i)
              then n\<lparr>edges := map (\<lambda>e. if toNodeId e = i then e\<lparr>toNodeId := the newId\<rparr> else e)
                                   (edges n)\<rparr>
            else n) (nodes prev),
        startNodeId = (if truthy newId \<and> startNodeId prev = Some i then newId
                       else startNodeId prev) \<rparr>)"

text \<open>\<open>connectNodes\<close> draws the edge id first, then appends the edge to every node whose
  id is \<open>fromId\<close>.\<close>

definition connectNodes :: "string \<Rightarrow> string \<Rightarrow> nat \<times> FlowState \<Rightarrow> nat \<times> FlowState" where
  "connectNodes fromId toId w =
     (case w of (counter, prev) \<Rightarrow>
        (case generateEdgeId counter of (eid, counter') \<Rightarrow>
           (let edge = \<lparr> FlowEdge.id = eid, toNodeId = toId, condition = ''default'',
                         parameters = [] \<rparr>
            in (counter',
                prev\<lparr>nodes := map (\<lambda>n. if FlowNode.id n = fromId
                                         then n\<lparr>edges := edges n @ [edge]\<rparr> else n)
                                   (nodes prev)\<rparr>))))"

text \<open>\<open>Partial<FlowEdge>\<close> and the spread \<open>{ ...e, ...patch }\<close>.\<close>

record EdgePatch =
  epatch_id :: "string option"
  epatch_toNodeId :: "string option"
  epatch_condition :: "string option"
  epatch_parameters :: "EdgeParameters option"

definition spread_edge :: "FlowEdge \<Rightarrow> EdgePatch \<Rightarrow> FlowEdge" where
  "spread_edge e patch =
     \<lparr> FlowEdge.id = (case epatch_id patch of None \<Rightarrow> FlowEdge.id e | Some v \<Rightarrow> v),
       toNodeId = (case epatch_toNodeId patch of None \<Rightarrow> toNodeId e | Some v \<Rightarrow> v),
       condition = (case epatch_condition patch of None \<Rightarrow> condition e | Some v \<Rightarrow> v),
       parameters = (case epatch_parameters patch of None \<Rightarrow> parameters e | Some v \<Rightarrow> v) \<rparr>"

definition updateEdge :: "string \<Rightarrow> string \<Rightarrow> EdgePatch \<Rightarrow> FlowState \<Rightarrow> FlowState" where
  "updateEdge nid eid patch prev =
     prev\<lparr>nodes := map (\<lambda>n.
        if FlowNode.id n = nid
        then n\<lparr>edges := map (\<lambda>e. if FlowEdge.id e = eid then spread_edge e patch else e) (edges n)\<rparr>
        else n) (nodes prev)\<rparr>"

definition loadFlow :: "FlowNode list \<Rightarrow> string option \<Rightarrow> FlowState \<Rightarrow> FlowState" where
  "loadFlow ns sid prev = \<lparr> nodes = ns, startNodeId = sid \<rparr>"


section \<open>Schema codec (src/utils/flow.ts)\<close>

subsection \<open>Export\<close>

text \<open>
  \<open>buildExportedFlow\<close> builds the object that \<open>JSON.stringify\<close> prints. \<open>export_edge\<close> and
  \<open>export_node\<close> are the two arrow functions it maps over the edges and the nodes;
  \<open>Object.keys(e.parameters).length > 0\<close> holds when the parameter object has a property.
\<close>

definition export_parameters :: "EdgeParameters \<Rightarrow> json" where
  "export_parameters ps = JObject (map (\<lambda>(k, v). (k, JString v)) ps)"

definition export_edge :: "FlowEdge \<Rightarrow> json" where
  "export_edge e =
     JObject ([(''to_node_id'', JString (toNodeId e)), (''condition'', JString (condition e))]
              @ (if length (parameters e) > 0
                 then [(''parameters'', export_parameters (parameters e))] else []))"

definition export_node :: "FlowNode \<Rightarrow> json" where
  "export_node n =
     JObject [(''id'', JString (FlowNode.id n)),
              (''description'', JString (description n)),
              (''prompt'', JString (prompt n)),
              (''edges'', JArray (map export_edge (edges n)))]"

definition buildExportedFlow :: "FlowNode list \<Rightarrow> string option \<Rightarrow> json" where
  "buildExportedFlow ns start =
     JObject [(''start_node_id'', (case start of None \<Rightarrow> JNull | Some s \<Rightarrow> JString s)),
              (''nodes'', JArray (map export_node ns))]"

text \<open>The edge objects of an exported document, node by node.\<close>

definition exported_edges :: "json \<Rightarrow> json list list" where
  "exported_edges doc =
     (case get doc ''nodes'' of
        Some (JArray ns) \<Rightarrow>
          map (\<lambda>n. case get n ''edges'' of Some (JArray es) \<Rightarrow> es | _ \<Rightarrow> []) ns
      | _ \<Rightarrow> [])"

subsection \<open>Import\<close>

text \<open>
  How a call ends: it throws, it returns a value of its declared type, or it returns a
  value outside its declared type. The last happens because \<open>JSON.parse(json) as
  ExportedFlow\<close> is an unchecked cast: a field that holds, say, a number is copied as it is
  into a field declared \<open>string\<close>.
\<close>

datatype js_error = SyntaxError | TypeError | PlainError string

datatype 'a completion = Throws js_error | Returns 'a | ReturnsUntyped

text \<open>JavaScript falsiness of a property read (\<open>None\<close> is \<open>undefined\<close>).\<close>

fun falsy :: "json option \<Rightarrow> bool" where
  "falsy None = True"
| "falsy (Some JNull) = True"
| "falsy (Some (JBool b)) = (\<not> b)"
| "falsy (Some (JNumber r)) = (r = 0)"
| "falsy (Some (JString s)) = (s = [])"
| "falsy (Some (JArray vs)) = False"
| "falsy (Some (JObject kvs)) = False"

text \<open>\<open>v ?? d\<close> into a field declared \<open>string\<close>: \<open>None\<close> when the value is neither nullish nor
  a string.\<close>

fun string_or :: "json option \<Rightarrow> string \<Rightarrow> string option" where
  "string_or None d = Some d"
| "string_or (Some JNull) d = Some d"
| "string_or (Some (JString s)) d = Some s"
| "string_or (Some v) d = None"

fun is_string :: "json \<Rightarrow> bool" where
  "is_string (JString s) = True"
| "is_string v = False"

fun the_string :: "json \<Rightarrow> string" where
  "the_string (JString s) = s"
| "the_string v = []"

text \<open>\<open>e.parameters ?? {}\<close> into a field declared \<open>EdgeParameters\<close>.\<close>

fun parameters_or :: "json option \<Rightarrow> EdgeParameters option" where
  "parameters_or None = Some []"
| "parameters_or (Some JNull) = Some []"
| "parameters_or (Some (JObject kvs)) =
     (if list_all (\<lambda>(k, v). is_string v) kvs then Some (map (\<lambda>(k, v). (k, the_string v)) kvs)
      else None)"
| "parameters_or (Some v) = None"

text \<open>The arrow function mapped over the edges of a node: \<open>generateEdgeId()\<close> runs first,
  then \<open>e.to_node_id\<close> throws a TypeError when \<open>e\<close> is null.\<close>

definition import_edge :: "nat \<Rightarrow> json \<Rightarrow> FlowEdge completion \<times> nat" where
  "import_edge counter e =
     (case generateEdgeId counter of (eid, counter') \<Rightarrow>
        if e = JNull then (Throws TypeError, counter')
        else (case (string_or (get e ''to_node_id'') [], string_or (get e ''condition'') [],
                    parameters_or (get e ''parameters'')) of
                (Some t, Some c, Some ps) \<Rightarrow>
                  (Returns \<lparr> FlowEdge.id = eid, toNodeId = t, condition = c, parameters = ps \<rparr>,
                   counter')
              | _ \<Rightarrow> (ReturnsUntyped, counter')))"

text \<open>Putting an element in front of the rest of a mapped array.\<close>

fun cons_completion :: "'a completion \<Rightarrow> 'a list completion \<Rightarrow> 'a list completion" where
  "cons_completion (Returns a) (Returns as) = Returns (a # as)"
| "cons_completion (Throws err) r = Throws err"
| "cons_completion r (Throws err) = Throws err"
| "cons_completion r r' = ReturnsUntyped"

text \<open>\<open>Array.prototype.map\<close> over the edges: it stops at the first exception.\<close>

fun import_edges :: "nat \<Rightarrow> json list \<Rightarrow> FlowEdge list completion \<times> nat" where
  "import_edges counter [] = (Returns [], counter)"
| "import_edges counter (e # es) =
     (case import_edge counter e of
        (Throws err, counter') \<Rightarrow> (Throws err, counter')
      | (r, counter') \<Rightarrow>
          (case import_edges counter' es of (rs, counter'') \<Rightarrow> (cons_completion r rs, counter'')))"

text \<open>
  The arrow function mapped over \<open>data.nodes\<close>, for the node \<open>n\<close> at index \<open>i\<close>: \<open>n.id\<close>
  throws a TypeError when \<open>n\<close> is null; \<open>(n.edges ?? []).map\<close> throws one when \<open>n.edges\<close> is
  neither nullish nor an array.
\<close>

definition import_node :: "nat \<Rightarrow> nat \<Rightarrow> json \<Rightarrow> FlowNode completion \<times> nat" where
  "import_node i counter n =
     (if n = JNull then (Throws TypeError, counter)
      else
        (case (if falsy (get n ''id'')
               then (case generateNodeId counter of (nid, counter') \<Rightarrow> (Some nid, counter'))
               else (string_or (get n ''id'') [], counter)) of
           (nid, counter1) \<Rightarrow>
             (case (case get n ''edges'' of
                      None \<Rightarrow> import_edges counter1 []
                    | Some JNull \<Rightarrow> import_edges counter1 []
                    | Some (JArray es) \<Rightarrow> import_edges counter1 es
                    | Some v \<Rightarrow> (Throws TypeError, counter1)) of
                (Throws err, counter2) \<Rightarrow> (Throws err, counter2)
              | (Returns es, counter2) \<Rightarrow>
                  (case (nid, string_or (get n ''description'') [], string_or (get n ''prompt'') []) of
                     (Some i', Some d, Some p) \<Rightarrow>
                       (Returns \<lparr> FlowNode.id = i', description = d, prompt = p, edges = es,
                                  x = snapToGrid (100 + real (i mod 4) * 260),
                                  y = snapToGrid (100 + real (i div 4) * 140) \<rparr>, counter2)
                   | _ \<Rightarrow> (ReturnsUntyped, counter2))
              | (ReturnsUntyped, counter2) \<Rightarrow> (ReturnsUntyped, counter2))))"

fun import_nodes :: "nat \<Rightarrow> nat \<Rightarrow> json list \<Rightarrow> FlowNode list completion \<times> nat" where
  "import_nodes i counter [] = (Returns [], counter)"
| "import_nodes i counter (n # ns) =
     (case import_node i counter n of
        (Throws err, counter') \<Rightarrow> (Throws err, counter')
      | (r, counter') \<Rightarrow>
          (case import_nodes (i + 1) counter' ns of
             (rs, counter'') \<Rightarrow> (cons_completion r rs, counter'')))"

text \<open>\<open>nodes[0]?.id ?? null\<close>.\<close>

fun first_id :: "FlowNode list \<Rightarrow> string option" where
  "first_id [] = None"
| "first_id (n # ns) = Some (FlowNode.id n)"

text \<open>
  \<open>importFlow\<close> after \<open>JSON.parse\<close>: \<open>data.nodes\<close> throws a TypeError when \<open>data\<close> is null; a
  \<open>nodes\<close> field that is not an array throws the "Missing nodes" error; the start id is
  \<open>data.start_node_id ?? nodes[0]?.id ?? null\<close>.
\<close>

definition import_data :: "nat \<Rightarrow> json \<Rightarrow> (FlowNode list \<times> string option) completion \<times> nat" where
  \<open>import_data counter data =
     (if data = JNull then (Throws TypeError, counter)
      else
        (case get data ''nodes'' of
           Some (JArray ns) \<Rightarrow>
             (case import_nodes 0 counter ns of
                (Throws err, counter') \<Rightarrow> (Throws err, counter')
              | (ReturnsUntyped, counter') \<Rightarrow> (ReturnsUntyped, counter')
              | (Returns ns', counter') \<Rightarrow>
                  (case get data ''start_node_id'' of
                     None \<Rightarrow> (Returns (ns', first_id ns'), counter')
                   | Some JNull \<Rightarrow> (Returns (ns', first_id ns'), counter')
                   | Some (JString s) \<Rightarrow> (Returns (ns', Some s), counter')
                   | Some v \<Rightarrow> (ReturnsUntyped, counter')))
         | _ \<Rightarrow> (Throws (PlainError ''Missing "nodes" array in JSON.''), counter)))\<close>

text \<open>
  \<open>importFlow\<close>. \<open>JSON.parse\<close> belongs to the runtime; it is the parameter \<open>JSON_parse\<close>,
  which gives \<open>None\<close> where \<open>JSON.parse\<close> throws a SyntaxError.
\<close>

definition importFlow ::
  "(string \<Rightarrow> json option) \<Rightarrow> nat \<Rightarrow> string \<Rightarrow> (FlowNode list \<times> string option) completion \<times> nat" where
  "importFlow JSON_parse counter text =
     (case JSON_parse text of
        None \<Rightarrow> (Throws SyntaxError, counter)
      | Some data \<Rightarrow> import_data counter data)"


subsection \<open>Malformed documents\<close>

fun throws :: "'a completion \<Rightarrow> bool" where
  "throws (Throws err) = True"
| "throws r = False"

text \<open>The parsed document has a \<open>nodes\<close> field that is an array.\<close>

definition has_nodes_array :: "json \<Rightarrow> bool" where
  "has_nodes_array data = (case get data ''nodes'' of Some (JArray ns) \<Rightarrow> True | _ \<Rightarrow> False)"

text \<open>An entry of \<open>nodes\<close> is null, or its \<open>edges\<close> field is neither absent, null nor an
  array, or its \<open>edges\<close> array has a null entry.\<close>

definition bad_node :: "json \<Rightarrow> bool" where
  "bad_node n =
     (n = JNull \<or>
      (case get n ''edges'' of
         None \<Rightarrow> False
       | Some JNull \<Rightarrow> False
       | Some (JArray es) \<Rightarrow> JNull \<in> set es
       | Some v \<Rightarrow> True))"

definition bad_nodes :: "json \<Rightarrow> bool" where
  "bad_nodes data =
     (case get data ''nodes'' of Some (JArray ns) \<Rightarrow> (\<exists>n \<in> set ns. bad_node n) | _ \<Rightarrow> False)"

text \<open>\<open>JSON.parse\<close> on the texts of the examples below (\<open>None\<close> on a text that is not JSON);
  no other text is used with it.\<close>

definition example_parse :: "string \<Rightarrow> json option" where
  \<open>example_parse text =
     (if text = ''{"nodes":[null]}'' then Some (JObject [(''nodes'', JArray [JNull])])
      else if text = ''{"start_node_id":null,"nodes":[{"id":"","description":"d","prompt":"","edges":[]}]}''
        then Some (JObject [(''start_node_id'', JNull),
               (''nodes'', JArray [JObject [(''id'', JString []), (''description'', JString ''d''),
                                            (''prompt'', JString []), (''edges'', JArray [])]])])
      else if text = ''{"start_node_id":"A","nodes":[{"id":"A","description":"d","prompt":"","edges":[{"to_node_id":"A","condition":"c","parameters":{"k":"v"}}]}]}''
        then Some (JObject [(''start_node_id'', JString ''A''),
               (''nodes'', JArray [JObject [(''id'', JString ''A''), (''description'', JString ''d''),
                  (''prompt'', JString []),
                  (''edges'', JArray [JObject [(''to_node_id'', JString ''A''),
                     (''condition'', JString ''c''),
                     (''parameters'', JObject [(''k'', JString ''v'')])]])]])])
      else if text = ''{"nodes":5}'' then Some (JObject [(''nodes'', JNumber 5)])
      else None)\<close>

text \<open>\<open>JSON.stringify\<close> on the two exported documents of the examples.\<close>

definition example_stringify :: "json \<Rightarrow> string" where
  \<open>example_stringify doc =
     (if get doc ''start_node_id'' = Some JNull
      then ''{"start_node_id":null,"nodes":[{"id":"","description":"d","prompt":"","edges":[]}]}''
      else ''{"start_node_id":"A","nodes":[{"id":"A","description":"d","prompt":"","edges":[{"to_node_id":"A","condition":"c","parameters":{"k":"v"}}]}]}'')\<close>


section \<open>Application (src/App.tsx)\<close>

text \<open>The graph store, the selection and the module-level id counter.\<close>

record AppState =
  counter :: nat
  state :: FlowState
  selectedNodeId :: "string option"
  selectedEdge :: "(string \<times> string) option"

text \<open>
  \<open>handleImport\<close>: an exception of \<open>importFlow\<close> leaves the callback before \<open>store.loadFlow\<close>
  and the two selection setters run. The result is the exception, if any, with the state
  the application is left in; it is \<open>None\<close> when \<open>importFlow\<close> returns a value outside
  \<open>FlowNode[]\<close>, which the store would then hold.
\<close>

definition handleImport ::
  "(string \<Rightarrow> json option) \<Rightarrow> string \<Rightarrow> AppState \<Rightarrow> (js_error option \<times> AppState) option" where
  "handleImport JSON_parse text app =
     (case importFlow JSON_parse (counter app) text of
        (Throws err, counter') \<Rightarrow> Some (Some err, app\<lparr>counter := counter'\<rparr>)
      | (Returns (imported, sid), counter') \<Rightarrow>
          Some (None, app\<lparr> counter := counter', state := loadFlow imported sid (state app),
                           selectedNodeId := None, selectedEdge := None \<rparr>)
      | (ReturnsUntyped, counter') \<Rightarrow> None)"


section \<open>Viewport (useCanvasState in src/hooks/useFlowStore.ts, handleWheel in src/components/Canvas.tsx)\<close>

record CanvasState =
  pan :: "real \<times> real"
  zoom :: real

text \<open>The initial viewport of \<open>useCanvasState\<close>.\<close>

definition initialCanvas :: CanvasState where
  "initialCanvas = \<lparr> pan = (0, 0), zoom = 1 \<rparr>"

text \<open>
  JavaScript numbers are IEEE 754 doubles. The viewport arithmetic is modelled over the
  reals with the rounding made explicit: \<open>fl\<close> is the function that rounds a real to the
  nearest double; the literals \<open>0.92\<close> and \<open>1.08\<close> denote \<open>fl (92 / 100)\<close> and \<open>fl (108 / 100)\<close>,
  and \<open>z * factor\<close> computes \<open>fl (z * factor)\<close>. The bounds \<open>0.25\<close> and \<open>2.5\<close> are doubles.
  \<open>rounding fl\<close> states what the proofs use of \<open>fl\<close>: it is monotone, it keeps \<open>0.25\<close> and
  \<open>2.5\<close>, and between \<open>1/8\<close> and \<open>4\<close> its relative error is at most \<open>2 ^ -53\<close>.
\<close>

definition rounding :: "(real \<Rightarrow> real) \<Rightarrow> bool" where
  "rounding fl \<longleftrightarrow>
     (\<forall>a b. a \<le> b \<longrightarrow> fl a \<le> fl b)
     \<and> fl (1 / 4) = 1 / 4 \<and> fl (5 / 2) = 5 / 2
     \<and> (\<forall>a. 1 / 8 \<le> a \<and> a \<le> 4 \<longrightarrow> \<bar>fl a - a\<bar> \<le> a / 2 ^ 53)"

text \<open>\<open>handleWheel\<close>: the updater it passes to \<open>onZoomChange\<close>, applied to the viewport;
  \<open>deltaY\<close> is the wheel event's field.\<close>

definition handleWheel :: "(real \<Rightarrow> real) \<Rightarrow> real \<Rightarrow> CanvasState \<Rightarrow> CanvasState" where
  "handleWheel fl deltaY cs =
     (let factor = (if deltaY > 0 then fl (92 / 100) else fl (108 / 100))
      in cs\<lparr>zoom := min (5 / 2) (max (1 / 4) (fl (zoom cs * factor)))\<rparr>)"


section \<open>Validation (src/utils/flow.ts)\<close>

text \<open>The white space and line terminators that \<open>String.prototype.trim\<close> strips, among the
  code units up to U+00FF: TAB, LF, VT, FF, CR, SP and NBSP.\<close>

definition is_space :: "char \<Rightarrow> bool" where
  "is_space ch = (ch \<in> {CHR 0x09, CHR 0x0A, CHR 0x0B, CHR 0x0C, CHR 0x0D, CHR 0x20, CHR 0xA0})"

definition trim :: "string \<Rightarrow> string" where
  "trim s = rev (dropWhile is_space (rev (dropWhile is_space s)))"

text \<open>The issues that \<open>validateFlow\<close> pushes, one definition for each object literal.\<close>

definition no_start_issue :: ValidationError where
  "no_start_issue = \<lparr> type = Error, nodeId = None, edgeId = None, field = None,
     message = ''No start node selected.'' \<rparr>"

definition start_missing_issue :: ValidationError where
  "start_missing_issue = \<lparr> type = Error, nodeId = None, edgeId = None, field = None,
     message = ''Selected start node no longer exists.'' \<rparr>"

definition empty_id_issue :: "string \<Rightarrow> ValidationError" where
  "empty_id_issue nid = \<lparr> type = Error, nodeId = Some nid, edgeId = None, field = Some ''id'',
     message = ''Node ID cannot be empty.'' \<rparr>"

definition duplicate_id_issue :: "string \<Rightarrow> ValidationError" where
  \<open>duplicate_id_issue nid = \<lparr> type = Error, nodeId = Some nid, edgeId = None, field = Some ''id'',
     message = ''Duplicate node ID: "'' @ nid @ ''".'' \<rparr>\<close>

definition description_issue :: "string \<Rightarrow> ValidationError" where
  "description_issue nid = \<lparr> type = Error, nodeId = Some nid, edgeId = None,
     field = Some ''description'', message = ''Description is required.'' \<rparr>"

definition no_target_issue :: "string \<Rightarrow> string \<Rightarrow> ValidationError" where
  "no_target_issue nid eid = \<lparr> type = Error, nodeId = Some nid, edgeId = Some eid, field = None,
     message = ''Edge has no target node.'' \<rparr>"

definition target_missing_issue :: "string \<Rightarrow> string \<Rightarrow> string \<Rightarrow> ValidationError" where
  \<open>target_missing_issue nid eid target = \<lparr> type = Error, nodeId = Some nid, edgeId = Some eid,
     field = None, message = ''Target node "'' @ target @ ''" does not exist.'' \<rparr>\<close>

definition condition_issue :: "string \<Rightarrow> string \<Rightarrow> ValidationError" where
  "condition_issue nid eid = \<lparr> type = Error, nodeId = Some nid, edgeId = Some eid, field = None,
     message = ''Edge condition is required.'' \<rparr>"

definition unreachable_issue :: "string \<Rightarrow> ValidationError" where
  \<open>unreachable_issue nid = \<lparr> type = Warning, nodeId = Some nid, edgeId = None, field = None,
     message = ''Node "'' @ nid @ ''" is unreachable from the start node.'' \<rparr>\<close>

text \<open>The global check on \<open>startNodeId\<close>.\<close>

definition global_issues :: "string list \<Rightarrow> string option \<Rightarrow> ValidationError list" where
  "global_issues nodeIds start =
     (if \<not> truthy start then [no_start_issue]
      else if the start \<notin> set nodeIds then [start_missing_issue]
      else [])"

text \<open>The body of \<open>node.edges.forEach\<close>.\<close>

definition edge_issues :: "string list \<Rightarrow> FlowNode \<Rightarrow> FlowEdge \<Rightarrow> ValidationError list" where
  "edge_issues nodeIds node edge =
     (if toNodeId edge = [] then [no_target_issue (FlowNode.id node) (FlowEdge.id edge)]
      else if toNodeId edge \<notin> set nodeIds
        then [target_missing_issue (FlowNode.id node) (FlowEdge.id edge) (toNodeId edge)]
      else [])
     @ (if trim (condition edge) = [] then [condition_issue (FlowNode.id node) (FlowEdge.id edge)]
        else [])"

text \<open>The id check of one node, given the ids seen before it.\<close>

definition id_issues :: "string set \<Rightarrow> FlowNode \<Rightarrow> ValidationError list" where
  "id_issues idSeen node =
     (if trim (FlowNode.id node) = [] then [empty_id_issue (FlowNode.id node)]
      else if FlowNode.id node \<in> idSeen then [duplicate_id_issue (FlowNode.id node)]
      else [])"

text \<open>The body of \<open>nodes.forEach\<close>, but for the update of \<open>idSeen\<close>.\<close>

definition node_issues :: "string list \<Rightarrow> string set \<Rightarrow> FlowNode \<Rightarrow> ValidationError list" where
  "node_issues nodeIds idSeen node =
     id_issues idSeen node
     @ (if trim (description node) = [] then [description_issue (FlowNode.id node)] else [])
     @ concat (map (edge_issues nodeIds node) (edges node))"

text \<open>\<open>nodes.forEach\<close>: \<open>idSeen.add(node.id)\<close> runs after the id check of each node.\<close>

fun validate_nodes :: "string list \<Rightarrow> string set \<Rightarrow> FlowNode list \<Rightarrow> ValidationError list" where
  "validate_nodes nodeIds idSeen [] = []"
| "validate_nodes nodeIds idSeen (node # rest) =
     node_issues nodeIds idSeen node @ validate_nodes nodeIds (insert (FlowNode.id node) idSeen) rest"

text \<open>Every edge target of the graph: the ids that the traversal can ever push.\<close>

definition edge_targets :: "FlowNode list \<Rightarrow> string set" where
  "edge_targets ns = (\<Union>n \<in> set ns. toNodeId ` set (edges n))"

text \<open>
  The \<open>while (queue.length > 0)\<close> loop. \<open>queue\<close> is used as a stack (\<open>pop\<close> and \<open>push\<close> work at
  the end of the array); the list holds it with the top first, so pushing the targets of
  \<open>n\<close> in edge order puts them reversed in front. \<open>n?.edges.forEach\<close> pushes nothing when no
  node has the id.
\<close>

function traverse :: "FlowNode list \<Rightarrow> string set \<Rightarrow> string list \<Rightarrow> string set" where
  "traverse ns reachable [] = reachable"
| "traverse ns reachable (cur # queue) =
     (if cur \<in> reachable then traverse ns reachable queue
      else traverse ns (insert cur reachable)
             (case find (\<lambda>n. FlowNode.id n = cur) ns of
                None \<Rightarrow> queue
              | Some n \<Rightarrow> rev (map toNodeId (edges n)) @ queue))"
  by pat_completeness auto

text \<open>
  The loop terminates on every graph, cyclic or not: an iteration either marks an id that
  was not marked (and only edge targets and queued ids can ever be marked), or pops an id
  that was marked and pushes nothing.
\<close>

termination traverse
proof (relation "measures [\<lambda>(ns, reachable, queue). card ((edge_targets ns \<union> set queue) - reachable),
                           \<lambda>(ns, reachable, queue). length queue]", goal_cases)
  case 1
  show ?case by simp
next
  case (2 ns reachable cur queue)
  then have "(edge_targets ns \<union> set (cur # queue)) - reachable
      = (edge_targets ns \<union> set queue) - reachable"
    by auto
  then show ?case by simp
next
  case (3 ns reachable cur queue)
  let ?q = "case find (\<lambda>n. FlowNode.id n = cur) ns of None \<Rightarrow> queue
            | Some n \<Rightarrow> rev (map toNodeId (edges n)) @ queue"
  have mem: "find P xs = Some a \<Longrightarrow> a \<in> set xs" for P and xs :: "FlowNode list" and a
    by (induction xs) (auto split: if_splits)
  have sub: "set ?q \<subseteq> edge_targets ns \<union> set queue"
    using mem [of "\<lambda>n. FlowNode.id n = cur" ns]
    by (auto simp: edge_targets_def split: option.splits)
  have "(edge_targets ns \<union> set ?q) - insert cur reachable
        \<subset> (edge_targets ns \<union> set (cur # queue)) - reachable"
    using sub 3 by auto
  moreover have "finite ((edge_targets ns \<union> set (cur # queue)) - reachable)"
    by (simp add: edge_targets_def)
  ultimately have "card ((edge_targets ns \<union> set ?q) - insert cur reachable)
        < card ((edge_targets ns \<union> set (cur # queue)) - reachable)"
    by (rule psubset_card_mono [rotated])
  then show ?case by simp
qed

definition reachability_issues :: "FlowNode list \<Rightarrow> string option \<Rightarrow> ValidationError list" where
  "reachability_issues ns start =
     (if truthy start \<and> the start \<in> set (map FlowNode.id ns)
      then (let reachable = traverse ns {} [the start]
            in map (\<lambda>n. unreachable_issue (FlowNode.id n))
                 (filter (\<lambda>n. FlowNode.id n \<notin> reachable) ns))
      else [])"

definition validateFlow :: "FlowNode list \<Rightarrow> string option \<Rightarrow> ValidationError list" where
  "validateFlow ns start =
     (let nodeIds = map FlowNode.id ns
      in global_issues nodeIds start
         @ validate_nodes nodeIds {} ns
         @ reachability_issues ns start)"


text \<open>
  Reachability as the specification words it: the start id is reached, and following an
  edge of a reached node reaches the edge's target. \<open>reaches\<close> takes the edges of an id from
  the first node that carries it; \<open>reaches_any\<close> takes them from any node that carries it.
  An edge whose target matches no node leads to an id with no outgoing edges.
\<close>

inductive reaches :: "FlowNode list \<Rightarrow> string \<Rightarrow> string \<Rightarrow> bool" for ns :: "FlowNode list" and s :: string where
  reaches_start: "reaches ns s s"
| reaches_step: "reaches ns s a \<Longrightarrow> find (\<lambda>n. FlowNode.id n = a) ns = Some n \<Longrightarrow> e \<in> set (edges n)
     \<Longrightarrow> reaches ns s (toNodeId e)"

inductive reaches_any :: "FlowNode list \<Rightarrow> string \<Rightarrow> string \<Rightarrow> bool" for ns :: "FlowNode list" and s :: string where
  reaches_any_start: "reaches_any ns s s"
| reaches_any_step: "reaches_any ns s a \<Longrightarrow> n \<in> set ns \<Longrightarrow> FlowNode.id n = a \<Longrightarrow> e \<in> set (edges n)
     \<Longrightarrow> reaches_any ns s (toNodeId e)"


text \<open>The invariant of the traversal: every edge of a marked id leads to a marked or a
  queued id.\<close>

definition closed_upto :: "FlowNode list \<Rightarrow> string set \<Rightarrow> string set \<Rightarrow> bool" where
  "closed_upto ns R Q \<longleftrightarrow>
     (\<forall>a \<in> R. \<forall>n. find (\<lambda>n. FlowNode.id n = a) ns = Some n \<longrightarrow> toNodeId ` set (edges n) \<subseteq> R \<union> Q)"


section \<open>Example graphs\<close>

text \<open>Small nodes and edges for the concrete instances below.\<close>

definition ex_edge :: "string \<Rightarrow> string \<Rightarrow> FlowEdge" where
  "ex_edge i t = \<lparr> FlowEdge.id = i, toNodeId = t, condition = ''c'', parameters = [] \<rparr>"

definition ex_node :: "string \<Rightarrow> FlowEdge list \<Rightarrow> FlowNode" where
  "ex_node i es = \<lparr> FlowNode.id = i, description = ''d'', prompt = [], edges = es, x = 100, y = 180 \<rparr>"


section \<open>Properties of the graph store\<close>

lemma map_upd_same: "(\<And>a. a \<in> set xs \<Longrightarrow> f a = a) \<Longrightarrow> map f xs = xs"
  by (induction xs) auto


text \<open>
  C3. After \<open>deleteNode i\<close> no node with id \<open>i\<close> remains; the surviving nodes are the
  nodes with another id, in order and with their other fields as they were; each of them
  keeps exactly its edges whose target is not \<open>i\<close>, in order; \<open>startNodeId\<close> becomes null
  if it was \<open>i\<close> and is unchanged otherwise; and when no node has id \<open>i\<close> no node is
  removed (only the edge and start cleanup happens).
\<close>

theorem deleteNode_cascade:
  "i \<notin> FlowNode.id ` set (nodes (deleteNode i s))
   \<and> map (\<lambda>n. n\<lparr>edges := []\<rparr>) (nodes (deleteNode i s))
       = map (\<lambda>n. n\<lparr>edges := []\<rparr>) (filter (\<lambda>n. FlowNode.id n \<noteq> i) (nodes s))
   \<and> map edges (nodes (deleteNode i s))
       = map (\<lambda>n. filter (\<lambda>e. toNodeId e \<noteq> i) (edges n)) (filter (\<lambda>n. FlowNode.id n \<noteq> i) (nodes s))
   \<and> (\<forall>n \<in> set (nodes (deleteNode i s)). \<forall>e \<in> set (edges n). toNodeId e \<noteq> i)
   \<and> startNodeId (deleteNode i s) = (if startNodeId s = Some i then None else startNodeId s)
   \<and> (i \<notin> FlowNode.id ` set (nodes s) \<longrightarrow>
        map (\<lambda>n. n\<lparr>edges := []\<rparr>) (nodes (deleteNode i s)) = map (\<lambda>n. n\<lparr>edges := []\<rparr>) (nodes s))"
proof -
  let ?kept = "filter (\<lambda>n. FlowNode.id n \<noteq> i) (nodes s)"
  have ns: "nodes (deleteNode i s)
      = map (\<lambda>n. n\<lparr>edges := filter (\<lambda>e. toNodeId e \<noteq> i) (edges n)\<rparr>) ?kept"
    by (simp add: deleteNode_def)
  have c1: "i \<notin> FlowNode.id ` set (nodes (deleteNode i s))"
    unfolding ns by (auto simp: image_iff)
  have c2: "map (\<lambda>n. n\<lparr>edges := []\<rparr>) (nodes (deleteNode i s)) = map (\<lambda>n. n\<lparr>edges := []\<rparr>) ?kept"
    unfolding ns by (simp add: comp_def)
  have c3: "map edges (nodes (deleteNode i s))
      = map (\<lambda>n. filter (\<lambda>e. toNodeId e \<noteq> i) (edges n)) ?kept"
    unfolding ns by (simp add: comp_def)
  have c4: "\<forall>n \<in> set (nodes (deleteNode i s)). \<forall>e \<in> set (edges n). toNodeId e \<noteq> i"
    unfolding ns by auto
  have c5: "startNodeId (deleteNode i s) = (if startNodeId s = Some i then None else startNodeId s)"
    by (simp add: deleteNode_def)
  have keep: "i \<notin> FlowNode.id ` set (nodes s) \<Longrightarrow> ?kept = nodes s"
    by (simp add: filter_id_conv image_iff) metis
  from c1 c2 c3 c4 c5 keep show ?thesis
    by simp
qed

theorem deleteNode_cascade_witness:
  "nodes (deleteNode ''b'' \<lparr> nodes = [ex_node ''a'' [ex_edge ''e1'' ''b'', ex_edge ''e2'' ''c''],
                                        ex_node ''b'' [ex_edge ''e3'' ''a''],
                                        ex_node ''c'' [ex_edge ''e4'' ''b'']],
                             startNodeId = Some ''b'' \<rparr>)
     = [ex_node ''a'' [ex_edge ''e2'' ''c''], ex_node ''c'' []]
   \<and> startNodeId (deleteNode ''b'' \<lparr> nodes = [ex_node ''a'' [ex_edge ''e1'' ''b'', ex_edge ''e2'' ''c''],
                                        ex_node ''b'' [ex_edge ''e3'' ''a''],
                                        ex_node ''c'' [ex_edge ''e4'' ''b'']],
                             startNodeId = Some ''b'' \<rparr>) = None
   \<and> ''z'' \<notin> FlowNode.id ` set [ex_node ''a'' [ex_edge ''e1'' ''z'']]
   \<and> map (\<lambda>n. n\<lparr>edges := []\<rparr>) (nodes (deleteNode ''z'' \<lparr> nodes = [ex_node ''a'' [ex_edge ''e1'' ''z'']], startNodeId = Some ''a'' \<rparr>))
       = [ex_node ''a'' []]"
  using deleteNode_cascade [of "''b''" "\<lparr> nodes = [ex_node ''a'' [ex_edge ''e1'' ''b'', ex_edge ''e2'' ''c''],
                                        ex_node ''b'' [ex_edge ''e3'' ''a''],
                                        ex_node ''c'' [ex_edge ''e4'' ''b'']],
                             startNodeId = Some ''b'' \<rparr>"]
        deleteNode_cascade [of "''z''" "\<lparr> nodes = [ex_node ''a'' [ex_edge ''e1'' ''z'']], startNodeId = Some ''a'' \<rparr>"]
  by (simp add: ex_node_def ex_edge_def deleteNode_def)


text \<open>
  C9. \<open>updateEdge nid eid patch\<close> leaves \<open>startNodeId\<close> unchanged, leaves every node whose
  id differs from \<open>nid\<close> entirely unchanged, and on every node keeps all fields but the
  edges, the number and order of edges, and every edge whose id differs from \<open>eid\<close>; if no
  node has id \<open>nid\<close>, or no edge of such a node has id \<open>eid\<close>, the whole state is unchanged.
\<close>

theorem updateEdge_frame:
  "startNodeId (updateEdge nid eid patch s) = startNodeId s
   \<and> length (nodes (updateEdge nid eid patch s)) = length (nodes s)
   \<and> (\<forall>k < length (nodes s).
        (FlowNode.id (nodes s ! k) \<noteq> nid \<longrightarrow> nodes (updateEdge nid eid patch s) ! k = nodes s ! k)
        \<and> (nodes (updateEdge nid eid patch s) ! k)\<lparr>edges := []\<rparr> = (nodes s ! k)\<lparr>edges := []\<rparr>
        \<and> length (edges (nodes (updateEdge nid eid patch s) ! k)) = length (edges (nodes s ! k))
        \<and> (\<forall>j < length (edges (nodes s ! k)).
              FlowEdge.id (edges (nodes s ! k) ! j) \<noteq> eid \<longrightarrow>
              edges (nodes (updateEdge nid eid patch s) ! k) ! j = edges (nodes s ! k) ! j))
   \<and> (nid \<notin> FlowNode.id ` set (nodes s) \<longrightarrow> updateEdge nid eid patch s = s)
   \<and> ((\<forall>n \<in> set (nodes s). FlowNode.id n = nid \<longrightarrow> eid \<notin> FlowEdge.id ` set (edges n))
        \<longrightarrow> updateEdge nid eid patch s = s)"
proof -
  let ?fe = "\<lambda>e. if FlowEdge.id e = eid then spread_edge e patch else e"
  let ?fn = "\<lambda>n. if FlowNode.id n = nid then n\<lparr>edges := map ?fe (edges n)\<rparr> else n"
  have ns: "nodes (updateEdge nid eid patch s) = map ?fn (nodes s)"
    by (simp add: updateEdge_def)
  have c1: "startNodeId (updateEdge nid eid patch s) = startNodeId s"
    by (simp add: updateEdge_def)
  have c2: "length (nodes (updateEdge nid eid patch s)) = length (nodes s)"
    by (simp add: ns)
  have c3: "(FlowNode.id (nodes s ! k) \<noteq> nid \<longrightarrow> nodes (updateEdge nid eid patch s) ! k = nodes s ! k)
        \<and> (nodes (updateEdge nid eid patch s) ! k)\<lparr>edges := []\<rparr> = (nodes s ! k)\<lparr>edges := []\<rparr>
        \<and> length (edges (nodes (updateEdge nid eid patch s) ! k)) = length (edges (nodes s ! k))
        \<and> (\<forall>j < length (edges (nodes s ! k)).
              FlowEdge.id (edges (nodes s ! k) ! j) \<noteq> eid \<longrightarrow>
              edges (nodes (updateEdge nid eid patch s) ! k) ! j = edges (nodes s ! k) ! j)"
    if "k < length (nodes s)" for k
    using that by (simp add: ns)
  have same: "map ?fn (nodes s) = nodes s"
    if "\<forall>n \<in> set (nodes s). FlowNode.id n = nid \<longrightarrow> eid \<notin> FlowEdge.id ` set (edges n)"
  proof (rule map_upd_same)
    fix n assume n: "n \<in> set (nodes s)"
    show "?fn n = n"
    proof (cases "FlowNode.id n = nid")
      case True
      with that n have "\<And>e. e \<in> set (edges n) \<Longrightarrow> FlowEdge.id e \<noteq> eid"
        by (auto simp: image_iff)
      then have "map ?fe (edges n) = edges n"
        by (intro map_upd_same) simp
      with True show ?thesis by simp
    next
      case False
      then show ?thesis by simp
    qed
  qed
  have c5: "updateEdge nid eid patch s = s"
    if "\<forall>n \<in> set (nodes s). FlowNode.id n = nid \<longrightarrow> eid \<notin> FlowEdge.id ` set (edges n)"
    using same [OF that] by (simp add: updateEdge_def)
  have c4: "updateEdge nid eid patch s = s" if "nid \<notin> FlowNode.id ` set (nodes s)"
    using that by (intro c5) (auto simp: image_iff)
  from c1 c2 c3 c4 c5 show ?thesis
    by blast
qed

theorem updateEdge_frame_witness:
  "updateEdge ''a'' ''e2'' \<lparr> epatch_id = None, epatch_toNodeId = Some ''a'', epatch_condition = None, epatch_parameters = Some [(''k'', ''v'')] \<rparr>
      \<lparr> nodes = [ex_node ''a'' [ex_edge ''e1'' ''b'', ex_edge ''e2'' ''c''], ex_node ''b'' [ex_edge ''e2'' ''a'']],
        startNodeId = Some ''a'' \<rparr>
    = \<lparr> nodes = [ex_node ''a'' [ex_edge ''e1'' ''b'', (ex_edge ''e2'' ''a'')\<lparr>parameters := [(''k'', ''v'')]\<rparr>],
                 ex_node ''b'' [ex_edge ''e2'' ''a'']],
        startNodeId = Some ''a'' \<rparr>
   \<and> ''z'' \<notin> FlowNode.id ` set [ex_node ''a'' [ex_edge ''e1'' ''b'']]
   \<and> updateEdge ''z'' ''e1'' \<lparr> epatch_id = None, epatch_toNodeId = Some ''a'', epatch_condition = None, epatch_parameters = None \<rparr>
        \<lparr> nodes = [ex_node ''a'' [ex_edge ''e1'' ''b'']], startNodeId = None \<rparr>
      = \<lparr> nodes = [ex_node ''a'' [ex_edge ''e1'' ''b'']], startNodeId = None \<rparr>"
  using updateEdge_frame [of "''a''" "''e2''" "\<lparr> epatch_id = None, epatch_toNodeId = Some ''a'', epatch_condition = None, epatch_parameters = Some [(''k'', ''v'')] \<rparr>"
      "\<lparr> nodes = [ex_node ''a'' [ex_edge ''e1'' ''b'', ex_edge ''e2'' ''c''], ex_node ''b'' [ex_edge ''e2'' ''a'']],
        startNodeId = Some ''a'' \<rparr>"]
    updateEdge_frame [of "''z''" "''e1''" "\<lparr> epatch_id = None, epatch_toNodeId = Some ''a'', epatch_condition = None, epatch_parameters = None \<rparr>"
        "\<lparr> nodes = [ex_node ''a'' [ex_edge ''e1'' ''b'']], startNodeId = None \<rparr>"]
  by (simp add: ex_node_def ex_edge_def updateEdge_def spread_edge_def)

text \<open>
  C2, as stated, fails. Renaming \<open>a\<close> to \<open>x\<close> leaves a self-loop of the renamed node
  pointing at \<open>a\<close>: a node whose id matches is replaced by \<open>{ ...n, ...patch }\<close> and its
  edges are not visited. Renaming \<open>a\<close> to the empty string rewrites no edge and leaves
  \<open>startNodeId\<close> at \<open>a\<close>: the rewriting is guarded by \<open>newId && \<dots>\<close>.
\<close>

theorem updateNode_rename_counterexample:
  "map toNodeId (edges (nodes (updateNode ''a''
        \<lparr> patch_id = Some ''x'', patch_description = None, patch_prompt = None \<rparr>
        \<lparr> nodes = [ex_node ''a'' [ex_edge ''e1'' ''a'', ex_edge ''e2'' ''b''],
                    ex_node ''b'' [ex_edge ''e3'' ''a'']],
          startNodeId = Some ''a'' \<rparr>) ! 0)) = [''a'', ''b'']
   \<and> updateNode ''a''
        \<lparr> patch_id = Some '''', patch_description = None, patch_prompt = None \<rparr>
        \<lparr> nodes = [ex_node ''a'' [], ex_node ''b'' [ex_edge ''e3'' ''a'']],
          startNodeId = Some ''a'' \<rparr>
      = \<lparr> nodes = [ex_node '''' [], ex_node ''b'' [ex_edge ''e3'' ''a'']],
          startNodeId = Some ''a'' \<rparr>"
  by (simp add: updateNode_def spread_node_def truthy_def ex_node_def ex_edge_def Let_def)


text \<open>
  C2, amended. When \<open>patch.id\<close> is a non-empty id \<open>new\<close>, \<open>updateNode old patch\<close> gives every
  node with id \<open>old\<close> the id \<open>new\<close> and keeps the id of every other node; on every node
  whose id is not \<open>old\<close>, each edge that targeted \<open>old\<close> targets \<open>new\<close> and is otherwise
  unchanged; on every node the number of edges is unchanged and each edge whose target is
  not \<open>old\<close> is unchanged; \<open>startNodeId\<close> becomes \<open>new\<close> if it was \<open>old\<close> and is unchanged
  otherwise. (The edges that a renamed node itself owns towards \<open>old\<close> are not part of the
  statement.)
\<close>

theorem updateNode_rename:
  assumes "patch_id patch = Some new" and "new \<noteq> []"
  shows "length (nodes (updateNode old patch s)) = length (nodes s)
   \<and> (\<forall>k < length (nodes s).
        length (edges (nodes (updateNode old patch s) ! k)) = length (edges (nodes s ! k))
        \<and> (\<forall>j < length (edges (nodes s ! k)).
              toNodeId (edges (nodes s ! k) ! j) \<noteq> old \<longrightarrow>
              edges (nodes (updateNode old patch s) ! k) ! j = edges (nodes s ! k) ! j)
        \<and> (FlowNode.id (nodes s ! k) \<noteq> old \<longrightarrow>
              FlowNode.id (nodes (updateNode old patch s) ! k) = FlowNode.id (nodes s ! k)
              \<and> (\<forall>j < length (edges (nodes s ! k)).
                    toNodeId (edges (nodes s ! k) ! j) = old \<longrightarrow>
                    edges (nodes (updateNode old patch s) ! k) ! j
                      = (edges (nodes s ! k) ! j)\<lparr>toNodeId := new\<rparr>))
        \<and> (FlowNode.id (nodes s ! k) = old \<longrightarrow>
              FlowNode.id (nodes (updateNode old patch s) ! k) = new))
   \<and> startNodeId (updateNode old patch s)
       = (if startNodeId s = Some old then Some new else startNodeId s)"
proof -
  let ?fe = "\<lambda>e. if toNodeId e = old then e\<lparr>toNodeId := new\<rparr> else e"
  let ?fn = "\<lambda>n. if FlowNode.id n = old then spread_node n patch
                  else if \<exists>e \<in> set (edges n). toNodeId e = old then n\<lparr>edges := map ?fe (edges n)\<rparr>
                  else n"
  have ns: "nodes (updateNode old patch s) = map ?fn (nodes s)"
    using assms by (simp add: updateNode_def truthy_def Let_def)
  have c1: "length (nodes (updateNode old patch s)) = length (nodes s)"
    by (simp add: ns)
  have c3: "startNodeId (updateNode old patch s)
       = (if startNodeId s = Some old then Some new else startNodeId s)"
    using assms by (simp add: updateNode_def truthy_def Let_def)
  have sp: "edges (spread_node n patch) = edges n" "FlowNode.id (spread_node n patch) = new" for n
    using assms by (simp_all add: spread_node_def)
  have c2: "length (edges (nodes (updateNode old patch s) ! k)) = length (edges (nodes s ! k))
        \<and> (\<forall>j < length (edges (nodes s ! k)).
              toNodeId (edges (nodes s ! k) ! j) \<noteq> old \<longrightarrow>
              edges (nodes (updateNode old patch s) ! k) ! j = edges (nodes s ! k) ! j)
        \<and> (FlowNode.id (nodes s ! k) \<noteq> old \<longrightarrow>
              FlowNode.id (nodes (updateNode old patch s) ! k) = FlowNode.id (nodes s ! k)
              \<and> (\<forall>j < length (edges (nodes s ! k)).
                    toNodeId (edges (nodes s ! k) ! j) = old \<longrightarrow>
                    edges (nodes (updateNode old patch s) ! k) ! j
                      = (edges (nodes s ! k) ! j)\<lparr>toNodeId := new\<rparr>))
        \<and> (FlowNode.id (nodes s ! k) = old \<longrightarrow>
              FlowNode.id (nodes (updateNode old patch s) ! k) = new)"
    if k: "k < length (nodes s)" for k
  proof -
    have nk: "nodes (updateNode old patch s) ! k = ?fn (nodes s ! k)"
      using k by (simp add: ns)
    show ?thesis
      unfolding nk by (auto simp: sp)
  qed
  from c1 c2 c3 show ?thesis by blast
qed

theorem updateNode_rename_witness:
  "updateNode ''a''
        \<lparr> patch_id = Some ''x'', patch_description = None, patch_prompt = Some ''p'' \<rparr>
        \<lparr> nodes = [ex_node ''a'' [ex_edge ''e2'' ''b''],
                    ex_node ''b'' [ex_edge ''e3'' ''a'', ex_edge ''e4'' ''b'']],
          startNodeId = Some ''a'' \<rparr>
      = \<lparr> nodes = [(ex_node ''x'' [ex_edge ''e2'' ''b''])\<lparr>prompt := ''p''\<rparr>,
                    ex_node ''b'' [ex_edge ''e3'' ''x'', ex_edge ''e4'' ''b'']],
          startNodeId = Some ''x'' \<rparr>
   \<and> ''x'' \<noteq> []"
  using updateNode_rename [of "\<lparr> patch_id = Some ''x'', patch_description = None, patch_prompt = Some ''p'' \<rparr>"
      "''x''" "''a''" "\<lparr> nodes = [ex_node ''a'' [ex_edge ''e2'' ''b''],
                    ex_node ''b'' [ex_edge ''e3'' ''a'', ex_edge ''e4'' ''b'']],
          startNodeId = Some ''a'' \<rparr>"]
  by (simp add: updateNode_def spread_node_def truthy_def ex_node_def ex_edge_def Let_def)

section \<open>Properties of the validator\<close>

subsection \<open>The traversal computes reachability\<close>

lemma find_Some_mem: "find P xs = Some a \<Longrightarrow> a \<in> set xs \<and> P a"
  by (induction xs) (auto split: if_splits)

lemma traverse_sound:
  "\<forall>a \<in> R. reaches ns s a \<Longrightarrow> \<forall>a \<in> set q. reaches ns s a \<Longrightarrow> a \<in> traverse ns R q \<Longrightarrow> reaches ns s a"
proof (induction ns R q rule: traverse.induct)
  case (1 ns R)
  then show ?case by simp
next
  case (2 ns R cur q)
  show ?case
  proof (cases "cur \<in> R")
    case True
    with 2 show ?thesis by simp
  next
    case False
    let ?q = "case find (\<lambda>n. FlowNode.id n = cur) ns of None \<Rightarrow> q
              | Some n \<Rightarrow> rev (map toNodeId (edges n)) @ q"
    have cur: "reaches ns s cur" using 2 by simp
    have q: "\<forall>a \<in> set ?q. reaches ns s a"
      using 2(4) cur by (auto split: option.splits intro: reaches_step)
    from False 2(5) have "a \<in> traverse ns (insert cur R) ?q" by simp
    with 2(2) [OF False] 2(3) cur q show ?thesis by simp
  qed
qed

lemma traverse_extends: "R \<union> set q \<subseteq> traverse ns R q"
proof (induction ns R q rule: traverse.induct)
  case (1 ns R)
  then show ?case by simp
next
  case (2 ns R cur q)
  then show ?case by (cases "cur \<in> R") (auto split: option.splits)
qed

lemma traverse_closed: "closed_upto ns R (set q) \<Longrightarrow> closed_upto ns (traverse ns R q) {}"
proof (induction ns R q rule: traverse.induct)
  case (1 ns R)
  then show ?case by simp
next
  case (2 ns R cur q)
  show ?case
  proof (cases "cur \<in> R")
    case True
    with 2(3) have "closed_upto ns R (set q)"
      by (auto simp: closed_upto_def)
    with 2(1) True show ?thesis by simp
  next
    case False
    let ?q = "case find (\<lambda>n. FlowNode.id n = cur) ns of None \<Rightarrow> q
              | Some n \<Rightarrow> rev (map toNodeId (edges n)) @ q"
    have qsub: "set q \<subseteq> set ?q"
      by (auto split: option.splits)
    have "closed_upto ns (insert cur R) (set ?q)"
      unfolding closed_upto_def
    proof (intro ballI allI impI)
      fix a n
      assume a: "a \<in> insert cur R" and f: "find (\<lambda>n. FlowNode.id n = a) ns = Some n"
      show "toNodeId ` set (edges n) \<subseteq> insert cur R \<union> set ?q"
      proof (cases "a = cur")
        case True
        with f show ?thesis by auto
      next
        case False
        with a 2(3) f have "toNodeId ` set (edges n) \<subseteq> R \<union> set (cur # q)"
          unfolding closed_upto_def by blast
        with qsub show ?thesis by auto
      qed
    qed
    with 2(2) False show ?thesis by simp
  qed
qed

lemma traverse_reaches: "traverse ns {} [s] = {a. reaches ns s a}"
proof (intro set_eqI iffI)
  fix a assume "a \<in> traverse ns {} [s]"
  with traverse_sound [of "{}" ns s "[s]" a] show "a \<in> {a. reaches ns s a}"
    by (simp add: reaches_start)
next
  fix a assume "a \<in> {a. reaches ns s a}"
  then have r: "reaches ns s a" by simp
  have cl: "closed_upto ns (traverse ns {} [s]) {}"
    by (rule traverse_closed) (simp add: closed_upto_def)
  have st: "s \<in> traverse ns {} [s]"
    using traverse_extends [of "{}" "[s]" ns] by simp
  from r show "a \<in> traverse ns {} [s]"
  proof (induction rule: reaches.induct)
    case reaches_start
    then show ?case by (rule st)
  next
    case (reaches_step a n e)
    with cl show ?case unfolding closed_upto_def by blast
  qed
qed

lemma find_distinct:
  "distinct (map FlowNode.id ns) \<Longrightarrow> n \<in> set ns \<Longrightarrow> find (\<lambda>m. FlowNode.id m = FlowNode.id n) ns = Some n"
  by (induction ns) (auto simp: image_iff)

lemma reaches_any_eq:
  assumes "distinct (map FlowNode.id ns)"
  shows "reaches_any ns s a \<longleftrightarrow> reaches ns s a"
proof
  assume "reaches_any ns s a"
  then show "reaches ns s a"
  proof (induction rule: reaches_any.induct)
    case reaches_any_start
    then show ?case by (rule reaches_start)
  next
    case (reaches_any_step a n e)
    then show ?case using find_distinct [OF assms, of n] by (auto intro: reaches_step)
  qed
next
  assume "reaches ns s a"
  then show "reaches_any ns s a"
  proof (induction rule: reaches.induct)
    case reaches_start
    then show ?case by (rule reaches_any_start)
  next
    case (reaches_step a n e)
    then show ?case using find_Some_mem [of "\<lambda>n. FlowNode.id n = a" ns n]
      by (auto intro: reaches_any_step)
  qed
qed


subsection \<open>Warnings and reachability\<close>

lemma validate_nodes_errors: "i \<in> set (validate_nodes nodeIds seen ns) \<Longrightarrow> type i = Error"
  by (induction ns arbitrary: seen)
     (auto simp: node_issues_def id_issues_def edge_issues_def empty_id_issue_def
        duplicate_id_issue_def description_issue_def no_target_issue_def
        target_missing_issue_def condition_issue_def split: if_splits)

lemma global_issues_errors: "i \<in> set (global_issues nodeIds start) \<Longrightarrow> type i = Error"
  by (auto simp: global_issues_def no_start_issue_def start_missing_issue_def split: if_splits)

lemma reachability_issues_warnings: "i \<in> set (reachability_issues ns start) \<Longrightarrow> type i = Warning"
  by (auto simp: reachability_issues_def unreachable_issue_def Let_def split: if_splits)

lemma filter_none: "(\<And>a. a \<in> set xs \<Longrightarrow> \<not> P a) \<Longrightarrow> filter P xs = []"
  by (induction xs) auto

lemma filter_all: "(\<And>a. a \<in> set xs \<Longrightarrow> P a) \<Longrightarrow> filter P xs = xs"
  by (induction xs) auto

lemma validateFlow_warnings:
  "filter (\<lambda>i. type i = Warning) (validateFlow ns start) = reachability_issues ns start"
proof -
  have "filter (\<lambda>i. type i = Warning) (global_issues (map FlowNode.id ns) start) = []"
    by (rule filter_none) (auto dest: global_issues_errors)
  moreover have "filter (\<lambda>i. type i = Warning) (validate_nodes (map FlowNode.id ns) {} ns) = []"
    by (rule filter_none) (auto dest: validate_nodes_errors)
  moreover have "filter (\<lambda>i. type i = Warning) (reachability_issues ns start) = reachability_issues ns start"
    by (rule filter_all) (auto dest: reachability_issues_warnings)
  ultimately show ?thesis
    by (simp add: validateFlow_def Let_def)
qed

text \<open>
  C5, as stated, fails when \<open>startNodeId\<close> is the empty string and a node has the empty id:
  the start id is non-null and matches a node, the node \<open>b\<close> is not reachable from it, and
  no warning is emitted. \<open>validateFlow\<close> guards the traversal by \<open>startNodeId && \<dots>\<close> and the
  empty string is falsy (the start-node selector uses it for "none selected").
\<close>

theorem validateFlow_reachability_counterexample:
  "'''' \<in> set (map FlowNode.id [ex_node '''' [], ex_node ''b'' []])
   \<and> \<not> reaches [ex_node '''' [], ex_node ''b'' []] '''' ''b''
   \<and> validateFlow [ex_node '''' [], ex_node ''b'' []] (Some '''')
       = [no_start_issue, empty_id_issue '''']"
proof -
  have "{a. reaches [ex_node '''' [], ex_node ''b'' []] '''' a} = {''''}"
    unfolding traverse_reaches [symmetric] by (simp add: ex_node_def)
  then have "\<not> reaches [ex_node '''' [], ex_node ''b'' []] '''' ''b''"
    by auto
  moreover have "validateFlow [ex_node '''' [], ex_node ''b'' []] (Some '''')
       = [no_start_issue, empty_id_issue '''']"
    by (simp add: validateFlow_def global_issues_def truthy_def node_issues_def id_issues_def
        reachability_issues_def trim_def is_space_def ex_node_def)
  ultimately show ?thesis
    by (simp add: ex_node_def)
qed

text \<open>
  C5, amended. For every graph whose \<open>startNodeId\<close> is non-null, non-empty and the id of an
  existing node, the warnings of \<open>validateFlow\<close> are exactly one unreachable warning for each
  node whose id is not reachable from the start id by following edge targets, in node
  order, and none for the others; no issue of type error carries the unreachable message;
  the traversal is a total function (it terminates on cyclic graphs), and an edge whose
  target matches no node adds nothing. The edges of an id are those of the first node
  that carries it; with pairwise distinct ids this is reachability over the edges of any
  node with that id. On the nodes \<open>A\<close> and \<open>B\<close> with \<open>A \<rightarrow> B\<close>, \<open>B \<rightarrow> C\<close>, no node \<open>C\<close> and start
  \<open>A\<close>, the result is exactly one target-does-not-exist error and no warning.
\<close>

theorem validateFlow_reachability:
  assumes "s \<noteq> []" and "s \<in> set (map FlowNode.id ns)"
  shows "filter (\<lambda>i. type i = Warning) (validateFlow ns (Some s))
           = map (\<lambda>n. unreachable_issue (FlowNode.id n))
               (filter (\<lambda>n. \<not> reaches ns s (FlowNode.id n)) ns)
    \<and> (\<forall>i \<in> set (validateFlow ns (Some s)). \<forall>a. message i = message (unreachable_issue a) \<longrightarrow> type i = Warning)
    \<and> (distinct (map FlowNode.id ns) \<longrightarrow> (\<forall>a. reaches ns s a \<longleftrightarrow> reaches_any ns s a))
    \<and> validateFlow [ex_node ''A'' [ex_edge ''e1'' ''B''], ex_node ''B'' [ex_edge ''e2'' ''C'']] (Some ''A'')
         = [target_missing_issue ''B'' ''e2'' ''C'']"
proof -
  have w: "reachability_issues ns (Some s)
      = map (\<lambda>n. unreachable_issue (FlowNode.id n)) (filter (\<lambda>n. \<not> reaches ns s (FlowNode.id n)) ns)"
    using assms by (simp add: reachability_issues_def truthy_def traverse_reaches Let_def del: traverse.simps)
  have c1: "filter (\<lambda>i. type i = Warning) (validateFlow ns (Some s))
           = map (\<lambda>n. unreachable_issue (FlowNode.id n))
               (filter (\<lambda>n. \<not> reaches ns s (FlowNode.id n)) ns)"
    by (simp add: validateFlow_warnings w)
  have c2: "type i = Warning"
    if "i \<in> set (validateFlow ns (Some s))" and "message i = message (unreachable_issue a)" for i a
  proof -
    from that(1) consider "i \<in> set (global_issues (map FlowNode.id ns) (Some s))"
      | "i \<in> set (validate_nodes (map FlowNode.id ns) {} ns)"
      | "i \<in> set (reachability_issues ns (Some s))"
      by (auto simp: validateFlow_def Let_def)
    then show ?thesis
    proof cases
      case 1
      with that(2) show ?thesis
        by (auto simp: global_issues_def no_start_issue_def start_missing_issue_def
            unreachable_issue_def split: if_splits)
    next
      case 2
      have "message j \<noteq> message (unreachable_issue a)"
        if "j \<in> set (validate_nodes nodeIds seen ms)" for j nodeIds seen ms
        using that
        by (induction ms arbitrary: seen)
           (auto simp: node_issues_def id_issues_def edge_issues_def empty_id_issue_def
              duplicate_id_issue_def description_issue_def no_target_issue_def
              target_missing_issue_def condition_issue_def unreachable_issue_def split: if_splits)
      with 2 that(2) show ?thesis by blast
    next
      case 3
      then show ?thesis by (rule reachability_issues_warnings)
    qed
  qed
  have c3: "reaches ns s a \<longleftrightarrow> reaches_any ns s a" if "distinct (map FlowNode.id ns)" for a
    using reaches_any_eq [OF that] by simp
  have c4: "validateFlow [ex_node ''A'' [ex_edge ''e1'' ''B''], ex_node ''B'' [ex_edge ''e2'' ''C'']] (Some ''A'')
         = [target_missing_issue ''B'' ''e2'' ''C'']"
    by (simp add: validateFlow_def global_issues_def truthy_def node_issues_def id_issues_def
        edge_issues_def reachability_issues_def trim_def is_space_def ex_node_def ex_edge_def)
  from c1 c2 c3 c4 show ?thesis by blast
qed

theorem validateFlow_reachability_witness:
  "''A'' \<noteq> [] \<and> ''A'' \<in> set (map FlowNode.id [ex_node ''A'' [ex_edge ''e1'' ''B''], ex_node ''B'' [ex_edge ''e2'' ''A''], ex_node ''C'' [ex_edge ''e3'' ''A'']])
   \<and> filter (\<lambda>i. type i = Warning)
       (validateFlow [ex_node ''A'' [ex_edge ''e1'' ''B''], ex_node ''B'' [ex_edge ''e2'' ''A''], ex_node ''C'' [ex_edge ''e3'' ''A'']] (Some ''A''))
     = [unreachable_issue ''C'']"
proof -
  let ?g = "[ex_node ''A'' [ex_edge ''e1'' ''B''], ex_node ''B'' [ex_edge ''e2'' ''A''], ex_node ''C'' [ex_edge ''e3'' ''A'']]"
  have h1: "''A'' \<noteq> []" by simp
  have h2: "''A'' \<in> set (map FlowNode.id ?g)" by (simp add: ex_node_def)
  have r: "{a. reaches ?g ''A'' a} = {''A'', ''B''}"
    unfolding traverse_reaches [symmetric] by (simp add: ex_node_def ex_edge_def insert_commute)
  then have "\<And>a. reaches ?g ''A'' a \<longleftrightarrow> a = ''A'' \<or> a = ''B''"
    by auto
  then have flt: "filter (\<lambda>n. \<not> reaches ?g ''A'' (FlowNode.id n)) ?g = [ex_node ''C'' [ex_edge ''e3'' ''A'']]"
    by (simp add: ex_node_def)
  have "filter (\<lambda>i. type i = Warning) (validateFlow ?g (Some ''A''))
      = map (\<lambda>n. unreachable_issue (FlowNode.id n)) (filter (\<lambda>n. \<not> reaches ?g ''A'' (FlowNode.id n)) ?g)"
    using validateFlow_reachability [OF h1 h2] by (rule conjunct1)
  also have "\<dots> = [unreachable_issue ''C'']"
    unfolding flt by (simp add: ex_node_def)
  finally show ?thesis
    using h2 by simp
qed


subsection \<open>The id checks\<close>

lemmas issue_defs = empty_id_issue_def duplicate_id_issue_def description_issue_def
  no_target_issue_def target_missing_issue_def condition_issue_def unreachable_issue_def
  no_start_issue_def start_missing_issue_def

lemma edge_issues_not_id_issue:
  "i \<in> set (concat (map (edge_issues nodeIds n) es)) \<Longrightarrow> edgeId i \<noteq> None"
  by (auto simp: edge_issues_def issue_defs split: if_splits)

lemma count_dup_node_issues:
  "count_list (node_issues nodeIds seen n) (duplicate_id_issue a)
     = (if trim (FlowNode.id n) \<noteq> [] \<and> FlowNode.id n \<in> seen \<and> FlowNode.id n = a then 1 else 0)"
proof -
  have "duplicate_id_issue a \<notin> set (concat (map (edge_issues nodeIds n) (edges n)))"
    using edge_issues_not_id_issue [of "duplicate_id_issue a" nodeIds n "edges n"]
    by (auto simp: duplicate_id_issue_def)
  then have e: "count_list (concat (map (edge_issues nodeIds n) (edges n))) (duplicate_id_issue a) = 0"
    by (simp only: count_list_0_iff not_False_eq_True)
  show ?thesis
    unfolding node_issues_def count_list_append e
    by (auto simp: id_issues_def issue_defs)
qed

lemma count_empty_node_issues:
  "count_list (node_issues nodeIds seen n) (empty_id_issue a)
     = (if trim (FlowNode.id n) = [] \<and> FlowNode.id n = a then 1 else 0)"
proof -
  have "empty_id_issue a \<notin> set (concat (map (edge_issues nodeIds n) (edges n)))"
    using edge_issues_not_id_issue [of "empty_id_issue a" nodeIds n "edges n"]
    by (auto simp: empty_id_issue_def)
  then have e: "count_list (concat (map (edge_issues nodeIds n) (edges n))) (empty_id_issue a) = 0"
    by (simp only: count_list_0_iff not_False_eq_True)
  show ?thesis
    unfolding node_issues_def count_list_append e
    by (auto simp: id_issues_def issue_defs)
qed

lemma count_dup_validate_nodes:
  "count_list (validate_nodes nodeIds seen ns) (duplicate_id_issue a)
     = (if trim a = [] then 0
        else if a \<in> seen then count_list (map FlowNode.id ns) a
        else count_list (map FlowNode.id ns) a - 1)"
proof (induction ns arbitrary: seen)
  case Nil
  then show ?case by simp
next
  case (Cons n rest)
  show ?case
    unfolding validate_nodes.simps count_list_append count_dup_node_issues Cons.IH
    by auto
qed

lemma count_empty_validate_nodes:
  "count_list (validate_nodes nodeIds seen ns) (empty_id_issue a)
     = (if trim a = [] then count_list (map FlowNode.id ns) a else 0)"
proof (induction ns arbitrary: seen)
  case Nil
  then show ?case by simp
next
  case (Cons n rest)
  show ?case
    unfolding validate_nodes.simps count_list_append count_empty_node_issues Cons.IH
    by auto
qed

lemma count_outside_nodes:
  assumes "nodeId i \<noteq> None" and "type i = Error"
  shows "count_list (global_issues nodeIds start) i = 0"
    and "count_list (reachability_issues ns start) i = 0"
proof -
  have "i \<notin> set (global_issues nodeIds start)"
    using assms(1) by (auto simp: global_issues_def issue_defs split: if_splits)
  then show "count_list (global_issues nodeIds start) i = 0"
    by (simp only: count_list_0_iff not_False_eq_True)
  have "i \<notin> set (reachability_issues ns start)"
    using assms(2) reachability_issues_warnings [of i ns start] by auto
  then show "count_list (reachability_issues ns start) i = 0"
    by (simp only: count_list_0_iff not_False_eq_True)
qed

lemma count_dup_validateFlow:
  "count_list (validateFlow ns start) (duplicate_id_issue a)
     = (if trim a = [] then 0 else count_list (map FlowNode.id ns) a - 1)"
  unfolding validateFlow_def Let_def count_list_append count_dup_validate_nodes
  by (simp add: count_outside_nodes duplicate_id_issue_def)

lemma count_empty_validateFlow:
  "count_list (validateFlow ns start) (empty_id_issue a)
     = (if trim a = [] then count_list (map FlowNode.id ns) a else 0)"
  unfolding validateFlow_def Let_def count_list_append count_empty_validate_nodes
  by (simp add: count_outside_nodes empty_id_issue_def)

lemma validate_nodes_concat:
  "validate_nodes nodeIds seen ns
     = concat (map (\<lambda>j. node_issues nodeIds (seen \<union> set (take j (map FlowNode.id ns))) (ns ! j))
                 [0..<length ns])"
proof (induction ns arbitrary: seen)
  case Nil
  then show ?case by simp
next
  case (Cons n rest)
  have "[0..<length (n # rest)] = 0 # map Suc [0..<length rest]"
    by (simp add: upt_conv_Cons map_Suc_upt del: upt_Suc)
  then show ?case
    by (simp add: Cons.IH comp_def del: upt_Suc)
qed

lemma dup_in_node_issues:
  "duplicate_id_issue a \<in> set (node_issues nodeIds seen n)
     \<longleftrightarrow> trim (FlowNode.id n) \<noteq> [] \<and> FlowNode.id n \<in> seen \<and> FlowNode.id n = a"
  using count_dup_node_issues [of nodeIds seen n a] count_list_0_iff [of "node_issues nodeIds seen n" "duplicate_id_issue a"]
  by (auto split: if_splits)

lemma empty_in_node_issues:
  "empty_id_issue a \<in> set (node_issues nodeIds seen n) \<longleftrightarrow> trim (FlowNode.id n) = [] \<and> FlowNode.id n = a"
  using count_empty_node_issues [of nodeIds seen n a] count_list_0_iff [of "node_issues nodeIds seen n" "empty_id_issue a"]
  by (auto split: if_splits)

lemma in_take_iff: "a \<in> set (take j xs) \<longleftrightarrow> (\<exists>i<j. i < length xs \<and> xs ! i = a)"
  by (auto simp: in_set_conv_nth)

lemma validateFlow_by_node:
  "validateFlow ns start
     = global_issues (map FlowNode.id ns) start
       @ concat (map (\<lambda>j. node_issues (map FlowNode.id ns) (set (take j (map FlowNode.id ns))) (ns ! j))
                   [0..<length ns])
       @ reachability_issues ns start"
  by (simp add: validateFlow_def Let_def validate_nodes_concat [where seen = "{}"])

text \<open>
  C4. \<open>validateFlow\<close> checks the id of the node at position \<open>j\<close> against the set of the ids
  of the nodes before it (the running set \<open>idSeen\<close>, updated after each check). For a node
  whose id is not blank, the duplicate-id error is emitted at position \<open>j\<close> exactly when an
  earlier node has the same id, and at most once; so among \<open>k\<close> nodes with the same non-blank
  id the first is not flagged, the second to the last are, and the result holds \<open>k - 1\<close>
  duplicate-id errors for that id.
\<close>

theorem validateFlow_duplicate_ids:
  "validateFlow ns start
     = global_issues (map FlowNode.id ns) start
       @ concat (map (\<lambda>j. node_issues (map FlowNode.id ns) (set (take j (map FlowNode.id ns))) (ns ! j))
                   [0..<length ns])
       @ reachability_issues ns start
   \<and> (\<forall>j < length ns. trim (FlowNode.id (ns ! j)) \<noteq> [] \<longrightarrow>
        (duplicate_id_issue (FlowNode.id (ns ! j))
            \<in> set (node_issues (map FlowNode.id ns) (set (take j (map FlowNode.id ns))) (ns ! j))
          \<longleftrightarrow> (\<exists>i<j. FlowNode.id (ns ! i) = FlowNode.id (ns ! j)))
        \<and> count_list (node_issues (map FlowNode.id ns) (set (take j (map FlowNode.id ns))) (ns ! j))
             (duplicate_id_issue (FlowNode.id (ns ! j))) \<le> 1)
   \<and> (\<forall>a. trim a \<noteq> [] \<longrightarrow>
        count_list (validateFlow ns start) (duplicate_id_issue a) = count_list (map FlowNode.id ns) a - 1)"
proof -
  have c2: "(duplicate_id_issue (FlowNode.id (ns ! j))
            \<in> set (node_issues (map FlowNode.id ns) (set (take j (map FlowNode.id ns))) (ns ! j))
          \<longleftrightarrow> (\<exists>i<j. FlowNode.id (ns ! i) = FlowNode.id (ns ! j)))
        \<and> count_list (node_issues (map FlowNode.id ns) (set (take j (map FlowNode.id ns))) (ns ! j))
             (duplicate_id_issue (FlowNode.id (ns ! j))) \<le> 1"
    if j: "j < length ns" and t: "trim (FlowNode.id (ns ! j)) \<noteq> []" for j
  proof -
    have "FlowNode.id (ns ! j) \<in> set (take j (map FlowNode.id ns))
        \<longleftrightarrow> (\<exists>i<j. FlowNode.id (ns ! i) = FlowNode.id (ns ! j))"
      using j by (auto simp: in_take_iff)
    with t show ?thesis
      by (simp add: dup_in_node_issues count_dup_node_issues)
  qed
  have c3: "count_list (validateFlow ns start) (duplicate_id_issue a) = count_list (map FlowNode.id ns) a - 1"
    if "trim a \<noteq> []" for a
    using that by (simp add: count_dup_validateFlow)
  from validateFlow_by_node [of ns start] c2 c3 show ?thesis
    by blast
qed

theorem validateFlow_duplicate_ids_witness:
  "trim ''A'' \<noteq> []
   \<and> count_list (validateFlow [ex_node ''A'' [], ex_node ''B'' [], ex_node ''A'' [], ex_node ''A'' []] None)
       (duplicate_id_issue ''A'') = 2
   \<and> duplicate_id_issue ''A''
       \<notin> set (node_issues [''A'', ''B'', ''A'', ''A''] {} (ex_node ''A'' []))
   \<and> duplicate_id_issue ''A''
       \<in> set (node_issues [''A'', ''B'', ''A'', ''A''] {''A'', ''B''} (ex_node ''A'' []))"
proof -
  let ?g = "[ex_node ''A'' [], ex_node ''B'' [], ex_node ''A'' [], ex_node ''A'' []]"
  have t: "trim ''A'' \<noteq> []"
    by (simp add: trim_def is_space_def)
  have ids: "map FlowNode.id ?g = [''A'', ''B'', ''A'', ''A'']"
    by (simp add: ex_node_def)
  note th = validateFlow_duplicate_ids [of ?g None, unfolded ids]
  from th have cnt: "\<forall>a. trim a \<noteq> [] \<longrightarrow>
      count_list (validateFlow ?g None) (duplicate_id_issue a) = count_list [''A'', ''B'', ''A'', ''A''] a - 1"
    by blast
  from th have pos: "\<forall>j < length ?g. trim (FlowNode.id (?g ! j)) \<noteq> [] \<longrightarrow>
        (duplicate_id_issue (FlowNode.id (?g ! j))
            \<in> set (node_issues [''A'', ''B'', ''A'', ''A''] (set (take j [''A'', ''B'', ''A'', ''A''])) (?g ! j))
          \<longleftrightarrow> (\<exists>i<j. FlowNode.id (?g ! i) = FlowNode.id (?g ! j)))"
    by blast
  have i0: "?g ! 0 = ex_node ''A'' []" "?g ! 2 = ex_node ''A'' []"
    "FlowNode.id (ex_node ''A'' []) = ''A''"
    by (simp_all add: ex_node_def)
  from cnt t have c: "count_list (validateFlow ?g None) (duplicate_id_issue ''A'') = 2"
    by simp
  from pos [rule_format, of 0] t
  have p0: "duplicate_id_issue ''A'' \<notin> set (node_issues [''A'', ''B'', ''A'', ''A''] {} (ex_node ''A'' []))"
    by (simp add: i0)
  have "\<exists>i<2::nat. FlowNode.id (?g ! i) = ''A''"
    by (rule exI [of _ 0]) (simp add: ex_node_def)
  with pos [rule_format, of 2] t
  have p2: "duplicate_id_issue ''A'' \<in> set (node_issues [''A'', ''B'', ''A'', ''A''] {''A'', ''B''} (ex_node ''A'' []))"
    by (simp add: i0 numeral_2_eq_2 insert_commute)
  from t c p0 p2 show ?thesis by blast
qed

text \<open>
  C10. A node whose id is empty or only white space receives the empty-id error and no
  duplicate-id error, however many nodes share that id: the result holds one empty-id
  error for each such node and no duplicate-id error for a blank id. A duplicate-id error
  at a node names that node's own id, and an earlier node has exactly that id (untrimmed):
  an id that occurs once is never reported as a duplicate, whatever other ids trim to the
  same text.
\<close>

theorem validateFlow_blank_ids:
  "validateFlow ns start
     = global_issues (map FlowNode.id ns) start
       @ concat (map (\<lambda>j. node_issues (map FlowNode.id ns) (set (take j (map FlowNode.id ns))) (ns ! j))
                   [0..<length ns])
       @ reachability_issues ns start
   \<and> (\<forall>j < length ns. trim (FlowNode.id (ns ! j)) = [] \<longrightarrow>
        empty_id_issue (FlowNode.id (ns ! j))
          \<in> set (node_issues (map FlowNode.id ns) (set (take j (map FlowNode.id ns))) (ns ! j))
        \<and> (\<forall>a. duplicate_id_issue a
              \<notin> set (node_issues (map FlowNode.id ns) (set (take j (map FlowNode.id ns))) (ns ! j))))
   \<and> (\<forall>a. trim a = [] \<longrightarrow>
        count_list (validateFlow ns start) (empty_id_issue a) = count_list (map FlowNode.id ns) a
        \<and> duplicate_id_issue a \<notin> set (validateFlow ns start))
   \<and> (\<forall>j < length ns. \<forall>a.
        duplicate_id_issue a
          \<in> set (node_issues (map FlowNode.id ns) (set (take j (map FlowNode.id ns))) (ns ! j))
        \<longrightarrow> a = FlowNode.id (ns ! j) \<and> (\<exists>i<j. FlowNode.id (ns ! i) = a))
   \<and> (\<forall>a. count_list (map FlowNode.id ns) a \<le> 1 \<longrightarrow> duplicate_id_issue a \<notin> set (validateFlow ns start))"
proof -
  have c2: "empty_id_issue (FlowNode.id (ns ! j))
          \<in> set (node_issues (map FlowNode.id ns) (set (take j (map FlowNode.id ns))) (ns ! j))
        \<and> (\<forall>a. duplicate_id_issue a
              \<notin> set (node_issues (map FlowNode.id ns) (set (take j (map FlowNode.id ns))) (ns ! j)))"
    if "j < length ns" and "trim (FlowNode.id (ns ! j)) = []" for j
    using that by (simp add: dup_in_node_issues empty_in_node_issues)
  have c3: "count_list (validateFlow ns start) (empty_id_issue a) = count_list (map FlowNode.id ns) a
        \<and> duplicate_id_issue a \<notin> set (validateFlow ns start)"
    if "trim a = []" for a
    using that count_dup_validateFlow [of ns start a]
    by (simp add: count_empty_validateFlow count_list_0_iff)
  have c4: "a = FlowNode.id (ns ! j) \<and> (\<exists>i<j. FlowNode.id (ns ! i) = a)"
    if "j < length ns"
      and "duplicate_id_issue a \<in> set (node_issues (map FlowNode.id ns) (set (take j (map FlowNode.id ns))) (ns ! j))"
    for j a
    using that by (auto simp: dup_in_node_issues in_take_iff)
  have c5: "duplicate_id_issue a \<notin> set (validateFlow ns start)"
    if "count_list (map FlowNode.id ns) a \<le> 1" for a
  proof -
    from that have "count_list (validateFlow ns start) (duplicate_id_issue a) = 0"
      by (simp add: count_dup_validateFlow)
    then show ?thesis
      by (simp only: count_list_0_iff not_False_eq_True)
  qed
  from validateFlow_by_node [of ns start] c2 c3 c4 c5 show ?thesis
    by blast
qed

theorem validateFlow_blank_ids_witness:
  "trim ''  '' = []
   \<and> count_list (validateFlow [ex_node ''  '' [], ex_node ''a'' [], ex_node ''  '' [], ex_node '' a'' []] None)
       (empty_id_issue ''  '') = 2
   \<and> duplicate_id_issue ''  ''
       \<notin> set (validateFlow [ex_node ''  '' [], ex_node ''a'' [], ex_node ''  '' [], ex_node '' a'' []] None)
   \<and> count_list (map FlowNode.id [ex_node ''  '' [], ex_node ''a'' [], ex_node ''  '' [], ex_node '' a'' []]) ''a'' \<le> 1
   \<and> trim '' a'' = trim ''a''
   \<and> duplicate_id_issue ''a''
       \<notin> set (validateFlow [ex_node ''  '' [], ex_node ''a'' [], ex_node ''  '' [], ex_node '' a'' []] None)
   \<and> duplicate_id_issue '' a''
       \<notin> set (validateFlow [ex_node ''  '' [], ex_node ''a'' [], ex_node ''  '' [], ex_node '' a'' []] None)"
proof -
  let ?g = "[ex_node ''  '' [], ex_node ''a'' [], ex_node ''  '' [], ex_node '' a'' []]"
  have t: "trim ''  '' = []" "trim '' a'' = trim ''a''"
    by (simp_all add: trim_def is_space_def)
  have ids: "map FlowNode.id ?g = [''  '', ''a'', ''  '', '' a'']"
    by (simp add: ex_node_def)
  note th = validateFlow_blank_ids [of ?g None, unfolded ids]
  from th have blank: "\<forall>a. trim a = [] \<longrightarrow>
        count_list (validateFlow ?g None) (empty_id_issue a) = count_list [''  '', ''a'', ''  '', '' a''] a
        \<and> duplicate_id_issue a \<notin> set (validateFlow ?g None)"
    by blast
  from th have once: "\<forall>a. count_list [''  '', ''a'', ''  '', '' a''] a \<le> 1
        \<longrightarrow> duplicate_id_issue a \<notin> set (validateFlow ?g None)"
    by blast
  from blank t(1) have b: "count_list (validateFlow ?g None) (empty_id_issue ''  '') = 2"
      "duplicate_id_issue ''  '' \<notin> set (validateFlow ?g None)"
    by simp_all
  have c: "count_list [''  '', ''a'', ''  '', '' a''] ''a'' \<le> 1"
      "count_list [''  '', ''a'', ''  '', '' a''] '' a'' \<le> 1"
    by simp_all
  from once c have o: "duplicate_id_issue ''a'' \<notin> set (validateFlow ?g None)"
      "duplicate_id_issue '' a'' \<notin> set (validateFlow ?g None)"
    by blast+
  from t b c(1) o show ?thesis
    unfolding ids by blast
qed

section \<open>Properties of the schema codec\<close>

subsection \<open>Export\<close>

lemma exported_edges_build:
  "exported_edges (buildExportedFlow ns start) = map (\<lambda>n. map export_edge (edges n)) ns"
  by (simp add: exported_edges_def buildExportedFlow_def export_node_def comp_def)

text \<open>
  C6. In the exported document, the object of every edge has the key \<open>parameters\<close> exactly
  when the edge's parameter object has a property, and the key never holds an empty
  object. After \<open>connectNodes a b\<close>, the exported edges of every node with id \<open>a\<close> are the
  ones exported before followed by the object with \<open>to_node_id\<close> \<open>b\<close> and \<open>condition\<close>
  \<open>default\<close>, which has no \<open>parameters\<close> key.
\<close>

theorem export_parameters_key:
  "exported_edges (buildExportedFlow ns start) = map (\<lambda>n. map export_edge (edges n)) ns
   \<and> (\<forall>k < length ns. \<forall>j < length (edges (ns ! k)).
        (has_key ''parameters'' (exported_edges (buildExportedFlow ns start) ! k ! j)
           \<longleftrightarrow> parameters (edges (ns ! k) ! j) \<noteq> [])
        \<and> get (exported_edges (buildExportedFlow ns start) ! k ! j) ''parameters'' \<noteq> Some (JObject []))
   \<and> (\<forall>k < length ns. FlowNode.id (ns ! k) = a \<longrightarrow>
        exported_edges (buildExportedFlow
            (nodes (snd (connectNodes a b (c, \<lparr>nodes = ns, startNodeId = start\<rparr>))))
            (startNodeId (snd (connectNodes a b (c, \<lparr>nodes = ns, startNodeId = start\<rparr>))))) ! k
          = exported_edges (buildExportedFlow ns start) ! k
            @ [JObject [(''to_node_id'', JString b), (''condition'', JString ''default'')]]
        \<and> \<not> has_key ''parameters''
              (JObject [(''to_node_id'', JString b), (''condition'', JString ''default'')]))"
proof -
  have c2: "(has_key ''parameters'' (exported_edges (buildExportedFlow ns start) ! k ! j)
           \<longleftrightarrow> parameters (edges (ns ! k) ! j) \<noteq> [])
        \<and> get (exported_edges (buildExportedFlow ns start) ! k ! j) ''parameters'' \<noteq> Some (JObject [])"
    if "k < length ns" and "j < length (edges (ns ! k))" for k j
  proof -
    have e: "exported_edges (buildExportedFlow ns start) ! k ! j = export_edge (edges (ns ! k) ! j)"
      using that by (simp add: exported_edges_build)
    show ?thesis
      unfolding e by (auto simp: export_edge_def export_parameters_def)
  qed
  have c3: "exported_edges (buildExportedFlow
            (nodes (snd (connectNodes a b (c, \<lparr>nodes = ns, startNodeId = start\<rparr>))))
            (startNodeId (snd (connectNodes a b (c, \<lparr>nodes = ns, startNodeId = start\<rparr>))))) ! k
          = exported_edges (buildExportedFlow ns start) ! k
            @ [JObject [(''to_node_id'', JString b), (''condition'', JString ''default'')]]
        \<and> \<not> has_key ''parameters''
              (JObject [(''to_node_id'', JString b), (''condition'', JString ''default'')])"
    if "k < length ns" and "FlowNode.id (ns ! k) = a" for k
    using that
    by (simp add: exported_edges_build connectNodes_def generateEdgeId_def export_edge_def Let_def)
  from exported_edges_build [of ns start] c2 c3 show ?thesis
    by blast
qed

theorem export_parameters_key_witness:
  "exported_edges (buildExportedFlow
      (nodes (snd (connectNodes ''A'' ''B'' (4, \<lparr>nodes = [ex_node ''A'' [(ex_edge ''e1'' ''B'')\<lparr>parameters := [(''k'', ''v'')]\<rparr>], ex_node ''B'' []],
                                               startNodeId = Some ''A''\<rparr>)))) (Some ''A''))
    = [[JObject [(''to_node_id'', JString ''B''), (''condition'', JString ''c''),
                 (''parameters'', JObject [(''k'', JString ''v'')])],
        JObject [(''to_node_id'', JString ''B''), (''condition'', JString ''default'')]],
       []]
   \<and> connectNodes ''A'' ''B'' (4, \<lparr>nodes = [ex_node ''A'' [], ex_node ''B'' []], startNodeId = Some ''A''\<rparr>)
      = (5, \<lparr>nodes = [ex_node ''A'' [\<lparr>FlowEdge.id = ''edge_5'', toNodeId = ''B'', condition = ''default'', parameters = []\<rparr>],
                       ex_node ''B'' []], startNodeId = Some ''A''\<rparr>)"
  using export_parameters_key [of "[ex_node ''A'' [(ex_edge ''e1'' ''B'')\<lparr>parameters := [(''k'', ''v'')]\<rparr>], ex_node ''B'' []]"
      "Some ''A''" "''A''" "''B''" 4]
  by (simp add: exported_edges_def buildExportedFlow_def export_node_def export_edge_def
      export_parameters_def connectNodes_def generateEdgeId_def digit_char_def ex_node_def ex_edge_def)


subsection \<open>Import of an export\<close>

lemma parameters_or_export:
  "parameters_or (Some (export_parameters ps)) = Some ps"
proof -
  have "list_all (\<lambda>(k, v). is_string v) (map (\<lambda>(k, v). (k, JString v)) ps)"
    by (induction ps) auto
  moreover have "map (\<lambda>(k, v). (k, the_string v)) (map (\<lambda>(k, v). (k, JString v)) ps) = ps"
    by (induction ps) auto
  ultimately show ?thesis
    by (simp add: export_parameters_def)
qed

lemma import_edge_export:
  "import_edge c (export_edge e)
     = (Returns (e\<lparr>FlowEdge.id := fst (generateEdgeId c)\<rparr>), c + 1)"
proof (cases "parameters e = []")
  case True
  then show ?thesis
    by (simp add: import_edge_def export_edge_def generateEdgeId_def)
next
  case False
  then show ?thesis
    by (simp add: import_edge_def export_edge_def generateEdgeId_def parameters_or_export)
qed

lemma import_edges_export:
  "\<exists>es'. import_edges c (map export_edge es) = (Returns es', c + length es)
      \<and> map (\<lambda>e. (toNodeId e, condition e, parameters e)) es'
          = map (\<lambda>e. (toNodeId e, condition e, parameters e)) es"
proof (induction es arbitrary: c)
  case Nil
  then show ?case by simp
next
  case (Cons e es)
  from Cons.IH [of "c + 1"] obtain es' where
    "import_edges (c + 1) (map export_edge es) = (Returns es', c + 1 + length es)"
    "map (\<lambda>e. (toNodeId e, condition e, parameters e)) es'
          = map (\<lambda>e. (toNodeId e, condition e, parameters e)) es"
    by blast
  then show ?case
    by (simp add: import_edge_export)
qed

lemma import_node_export:
  assumes "FlowNode.id n \<noteq> []"
  shows "\<exists>n'. import_node i c (export_node n) = (Returns n', c + length (edges n))
      \<and> FlowNode.id n' = FlowNode.id n \<and> description n' = description n \<and> prompt n' = prompt n
      \<and> map (\<lambda>e. (toNodeId e, condition e, parameters e)) (edges n')
          = map (\<lambda>e. (toNodeId e, condition e, parameters e)) (edges n)"
proof -
  from import_edges_export [of c "edges n"] obtain es' where
    es: "import_edges c (map export_edge (edges n)) = (Returns es', c + length (edges n))"
    "map (\<lambda>e. (toNodeId e, condition e, parameters e)) es'
          = map (\<lambda>e. (toNodeId e, condition e, parameters e)) (edges n)"
    by blast
  with assms show ?thesis
    by (simp add: import_node_def export_node_def)
qed

lemma import_nodes_export:
  assumes "\<forall>n \<in> set ns. FlowNode.id n \<noteq> []"
  shows "\<exists>ns' c'. import_nodes i c (map export_node ns) = (Returns ns', c')
      \<and> map (\<lambda>n. (FlowNode.id n, description n, prompt n,
                   map (\<lambda>e. (toNodeId e, condition e, parameters e)) (edges n))) ns'
          = map (\<lambda>n. (FlowNode.id n, description n, prompt n,
                   map (\<lambda>e. (toNodeId e, condition e, parameters e)) (edges n))) ns"
  using assms
proof (induction ns arbitrary: i c)
  case Nil
  then show ?case by simp
next
  case (Cons n ns)
  from Cons.prems have "FlowNode.id n \<noteq> []" by simp
  from import_node_export [OF this, of i c] obtain n' where
    n': "import_node i c (export_node n) = (Returns n', c + length (edges n))"
      "FlowNode.id n' = FlowNode.id n" "description n' = description n" "prompt n' = prompt n"
      "map (\<lambda>e. (toNodeId e, condition e, parameters e)) (edges n')
          = map (\<lambda>e. (toNodeId e, condition e, parameters e)) (edges n)"
    by blast
  from Cons.prems have "\<forall>n \<in> set ns. FlowNode.id n \<noteq> []" by simp
  from Cons.IH [OF this, of "i + 1" "c + length (edges n)"] obtain ns' c' where
    ns': "import_nodes (i + 1) (c + length (edges n)) (map export_node ns) = (Returns ns', c')"
      "map (\<lambda>n. (FlowNode.id n, description n, prompt n,
                   map (\<lambda>e. (toNodeId e, condition e, parameters e)) (edges n))) ns'
          = map (\<lambda>n. (FlowNode.id n, description n, prompt n,
                   map (\<lambda>e. (toNodeId e, condition e, parameters e)) (edges n))) ns"
    by blast
  from n' ns' show ?case
    by simp
qed

lemma import_data_export:
  assumes "\<forall>n \<in> set ns. FlowNode.id n \<noteq> []"
  shows "\<exists>ns' start' c'. import_data c (buildExportedFlow ns start) = (Returns (ns', start'), c')
      \<and> map (\<lambda>n. (FlowNode.id n, description n, prompt n,
                   map (\<lambda>e. (toNodeId e, condition e, parameters e)) (edges n))) ns'
          = map (\<lambda>n. (FlowNode.id n, description n, prompt n,
                   map (\<lambda>e. (toNodeId e, condition e, parameters e)) (edges n))) ns"
proof -
  from import_nodes_export [OF assms, of 0 c] obtain ns' c' where
    "import_nodes 0 c (map export_node ns) = (Returns ns', c')"
    "map (\<lambda>n. (FlowNode.id n, description n, prompt n,
                   map (\<lambda>e. (toNodeId e, condition e, parameters e)) (edges n))) ns'
          = map (\<lambda>n. (FlowNode.id n, description n, prompt n,
                   map (\<lambda>e. (toNodeId e, condition e, parameters e)) (edges n))) ns"
    by blast
  then show ?thesis
    by (cases start) (simp_all add: import_data_def buildExportedFlow_def)
qed

text \<open>
  C1, as stated, fails for a graph with a node whose id is the empty string: the exported
  document carries \<open>"id": ""\<close>, and \<open>importFlow\<close> replaces a falsy id by a fresh one
  (\<open>n.id || generateNodeId()\<close>), here \<open>node_1\<close>.
\<close>

theorem import_export_roundtrip_counterexample:
  \<open>buildExportedFlow [ex_node [] []] None
     = JObject [(''start_node_id'', JNull),
         (''nodes'', JArray [JObject [(''id'', JString []), (''description'', JString ''d''),
                                      (''prompt'', JString []), (''edges'', JArray [])]])]
   \<and> example_stringify (buildExportedFlow [ex_node [] []] None)
       = ''{"start_node_id":null,"nodes":[{"id":"","description":"d","prompt":"","edges":[]}]}''
   \<and> example_parse (example_stringify (buildExportedFlow [ex_node [] []] None))
       = Some (buildExportedFlow [ex_node [] []] None)
   \<and> importFlow example_parse 0 (example_stringify (buildExportedFlow [ex_node [] []] None))
       = (Returns ([\<lparr> FlowNode.id = ''node_1'', description = ''d'', prompt = [], edges = [],
                       x = 100, y = 100 \<rparr>], Some ''node_1''), 1)\<close>
  by (simp add: buildExportedFlow_def export_node_def ex_node_def example_stringify_def
      example_parse_def importFlow_def import_data_def import_node_def generateNodeId_def
      digit_char_def snapToGrid_def GRID_def)

text \<open>
  C1, amended. For every graph in which no node has the empty id, and for a runtime in
  which \<open>JSON.parse\<close> gives back the exported document from its \<open>JSON.stringify\<close> text,
  importing the serialization of the export returns a graph with the same sequence of
  node ids, descriptions and prompts, and for each node the same sequences of edge
  targets, conditions and parameter objects. Positions and edge ids are not compared.
\<close>

theorem import_export_roundtrip:
  assumes "\<forall>n \<in> set ns. FlowNode.id n \<noteq> []"
    and "JSON_parse (JSON_stringify (buildExportedFlow ns start)) = Some (buildExportedFlow ns start)"
  shows "\<exists>ns' start' c'.
      importFlow JSON_parse c (JSON_stringify (buildExportedFlow ns start)) = (Returns (ns', start'), c')
      \<and> map FlowNode.id ns' = map FlowNode.id ns
      \<and> map description ns' = map description ns
      \<and> map prompt ns' = map prompt ns
      \<and> map (\<lambda>n. map toNodeId (edges n)) ns' = map (\<lambda>n. map toNodeId (edges n)) ns
      \<and> map (\<lambda>n. map condition (edges n)) ns' = map (\<lambda>n. map condition (edges n)) ns
      \<and> map (\<lambda>n. map parameters (edges n)) ns' = map (\<lambda>n. map parameters (edges n)) ns"
proof -
  let ?content = "\<lambda>n. (FlowNode.id n, description n, prompt n,
                   map (\<lambda>e. (toNodeId e, condition e, parameters e)) (edges n))"
  from import_data_export [OF assms(1), of c start] obtain ns' start' c' where
    r: "import_data c (buildExportedFlow ns start) = (Returns (ns', start'), c')"
    and eq: "map ?content ns' = map ?content ns"
    by blast
  have imp: "importFlow JSON_parse c (JSON_stringify (buildExportedFlow ns start)) = (Returns (ns', start'), c')"
    using assms(2) r by (simp add: importFlow_def)
  have proj: "map f ns' = map f ns" if "\<And>n. f n = g (?content n)" for f :: "FlowNode \<Rightarrow> 'b" and g
  proof -
    have "map f ns' = map g (map ?content ns')"
      using that by (simp add: comp_def)
    also have "\<dots> = map g (map ?content ns)"
      by (simp only: eq)
    also have "\<dots> = map f ns"
      using that by (simp add: comp_def)
    finally show ?thesis .
  qed
  have "map FlowNode.id ns' = map FlowNode.id ns"
    by (rule proj [of _ fst]) simp
  moreover have "map description ns' = map description ns"
    by (rule proj [of _ "\<lambda>t. fst (snd t)"]) simp
  moreover have "map prompt ns' = map prompt ns"
    by (rule proj [of _ "\<lambda>t. fst (snd (snd t))"]) simp
  moreover have "map (\<lambda>n. map toNodeId (edges n)) ns' = map (\<lambda>n. map toNodeId (edges n)) ns"
    by (rule proj [of _ "\<lambda>t. map fst (snd (snd (snd t)))"]) (simp add: comp_def)
  moreover have "map (\<lambda>n. map condition (edges n)) ns' = map (\<lambda>n. map condition (edges n)) ns"
    by (rule proj [of _ "\<lambda>t. map (\<lambda>u. fst (snd u)) (snd (snd (snd t)))"]) (simp add: comp_def)
  moreover have "map (\<lambda>n. map parameters (edges n)) ns' = map (\<lambda>n. map parameters (edges n)) ns"
    by (rule proj [of _ "\<lambda>t. map (\<lambda>u. snd (snd u)) (snd (snd (snd t)))"]) (simp add: comp_def)
  ultimately show ?thesis
    using imp by blast
qed

theorem import_export_roundtrip_witness:
  \<open>example_parse (example_stringify (buildExportedFlow
       [ex_node ''A'' [(ex_edge ''e1'' ''A'')\<lparr>parameters := [(''k'', ''v'')]\<rparr>]] (Some ''A'')))
     = Some (buildExportedFlow
       [ex_node ''A'' [(ex_edge ''e1'' ''A'')\<lparr>parameters := [(''k'', ''v'')]\<rparr>]] (Some ''A''))
   \<and> importFlow example_parse 3 (example_stringify (buildExportedFlow
       [ex_node ''A'' [(ex_edge ''e1'' ''A'')\<lparr>parameters := [(''k'', ''v'')]\<rparr>]] (Some ''A'')))
     = (Returns ([\<lparr> FlowNode.id = ''A'', description = ''d'', prompt = [],
                     edges = [\<lparr> FlowEdge.id = ''edge_4'', toNodeId = ''A'', condition = ''c'',
                                parameters = [(''k'', ''v'')] \<rparr>],
                     x = 100, y = 100 \<rparr>], Some ''A''), 4)\<close>
proof -
  let ?g = "[ex_node ''A'' [(ex_edge ''e1'' ''A'')\<lparr>parameters := [(''k'', ''v'')]\<rparr>]]"
  have h1: "\<forall>n \<in> set ?g. FlowNode.id n \<noteq> []"
    by (simp add: ex_node_def)
  have h2: "example_parse (example_stringify (buildExportedFlow ?g (Some ''A'')))
      = Some (buildExportedFlow ?g (Some ''A''))"
    by (simp add: buildExportedFlow_def export_node_def export_edge_def export_parameters_def
        ex_node_def ex_edge_def example_stringify_def example_parse_def)
  from import_export_roundtrip [of ?g example_parse example_stringify "Some ''A''" 3, OF h1 h2]
  obtain ns' start' c' where
    "importFlow example_parse 3 (example_stringify (buildExportedFlow ?g (Some ''A''))) = (Returns (ns', start'), c')"
    by blast
  moreover have "importFlow example_parse 3 (example_stringify (buildExportedFlow ?g (Some ''A'')))
     = (Returns ([\<lparr> FlowNode.id = ''A'', description = ''d'', prompt = [],
                     edges = [\<lparr> FlowEdge.id = ''edge_4'', toNodeId = ''A'', condition = ''c'',
                                parameters = [(''k'', ''v'')] \<rparr>],
                     x = 100, y = 100 \<rparr>], Some ''A''), 4)"
    unfolding importFlow_def h2 option.case
    by (simp add: import_data_def import_node_def import_edge_def
        generateEdgeId_def digit_char_def snapToGrid_def GRID_def
        buildExportedFlow_def export_node_def export_edge_def export_parameters_def
        ex_node_def ex_edge_def)
  ultimately show ?thesis
    using h2 by simp
qed


subsection \<open>Failing imports\<close>

lemma throws_cons_completion: "throws (cons_completion r rs) \<longleftrightarrow> throws r \<or> throws rs"
  by (cases r; cases rs) simp_all

lemma throws_import_edge: "throws (fst (import_edge c e)) \<longleftrightarrow> e = JNull"
  by (simp add: import_edge_def generateEdgeId_def split: option.splits)

lemma throws_import_edges: "throws (fst (import_edges c es)) \<longleftrightarrow> JNull \<in> set es"
proof (induction es arbitrary: c)
  case Nil
  then show ?case by simp
next
  case (Cons e es)
  obtain r c1 where e: "import_edge c e = (r, c1)"
    by (cases "import_edge c e")
  obtain rs c2 where es: "import_edges c1 es = (rs, c2)"
    by (cases "import_edges c1 es")
  from throws_import_edge [of c e] e have r: "throws r \<longleftrightarrow> e = JNull"
    by simp
  from Cons.IH [of c1] es have rs: "throws rs \<longleftrightarrow> JNull \<in> set es"
    by simp
  show ?case
  proof (cases r)
    case (Throws err)
    with e r show ?thesis by simp
  next
    case (Returns a)
    with e es r rs show ?thesis
      by (auto simp: throws_cons_completion)
  next
    case ReturnsUntyped
    with e es r rs show ?thesis
      by (auto simp: throws_cons_completion)
  qed
qed

lemma throws_import_node: "throws (fst (import_node i c n)) \<longleftrightarrow> bad_node n"
proof (cases "n = JNull")
  case True
  then show ?thesis by (simp add: import_node_def bad_node_def)
next
  case False
  obtain nid c1 where idc: "(if falsy (get n ''id'')
               then (case generateNodeId c of (nid, counter') \<Rightarrow> (Some nid, counter'))
               else (string_or (get n ''id'') [], c)) = (nid, c1)"
    by (cases "(if falsy (get n ''id'')
               then (case generateNodeId c of (nid, counter') \<Rightarrow> (Some nid, counter'))
               else (string_or (get n ''id'') [], c))")
  let ?es = "case get n ''edges'' of
                      None \<Rightarrow> import_edges c1 []
                    | Some JNull \<Rightarrow> import_edges c1 []
                    | Some (JArray es) \<Rightarrow> import_edges c1 es
                    | Some v \<Rightarrow> (Throws TypeError, c1)"
  have es: "throws (fst ?es) \<longleftrightarrow> bad_node n"
    using False by (simp add: bad_node_def throws_import_edges split: option.splits json.splits)
  obtain r c2 where rc: "?es = (r, c2)"
    by (cases ?es)
  have "import_node i c n =
      (case r of Throws err \<Rightarrow> (Throws err, c2)
       | Returns es \<Rightarrow>
           (case (nid, string_or (get n ''description'') [], string_or (get n ''prompt'') []) of
                     (Some i', Some d, Some p) \<Rightarrow>
                       (Returns \<lparr> FlowNode.id = i', description = d, prompt = p, edges = es,
                                  x = snapToGrid (100 + real (i mod 4) * 260),
                                  y = snapToGrid (100 + real (i div 4) * 140) \<rparr>, c2)
                   | _ \<Rightarrow> (ReturnsUntyped, c2))
       | ReturnsUntyped \<Rightarrow> (ReturnsUntyped, c2))"
    unfolding import_node_def using False idc rc by simp
  then have "throws (fst (import_node i c n)) \<longleftrightarrow> throws r"
    by (simp split: completion.splits option.splits)
  with es rc show ?thesis by simp
qed

lemma throws_import_nodes: "throws (fst (import_nodes i c ns)) \<longleftrightarrow> (\<exists>n \<in> set ns. bad_node n)"
proof (induction ns arbitrary: i c)
  case Nil
  then show ?case by simp
next
  case (Cons n ns)
  obtain r c1 where n: "import_node i c n = (r, c1)"
    by (cases "import_node i c n")
  obtain rs c2 where ns: "import_nodes (i + 1) c1 ns = (rs, c2)"
    by (cases "import_nodes (i + 1) c1 ns")
  from throws_import_node [of i c n] n have r: "throws r \<longleftrightarrow> bad_node n"
    by simp
  from Cons.IH [of "i + 1" c1] ns have rs: "throws rs \<longleftrightarrow> (\<exists>n \<in> set ns. bad_node n)"
    by simp
  show ?case
  proof (cases r)
    case (Throws err)
    with n r show ?thesis by simp
  next
    case (Returns a)
    with n ns r rs show ?thesis
      by (auto simp: throws_cons_completion)
  next
    case ReturnsUntyped
    with n ns r rs show ?thesis
      by (auto simp: throws_cons_completion)
  qed
qed

lemma throws_import_data:
  "throws (fst (import_data c data)) \<longleftrightarrow> \<not> has_nodes_array data \<or> bad_nodes data"
proof (cases "data = JNull")
  case True
  then show ?thesis by (simp add: import_data_def has_nodes_array_def)
next
  case False
  show ?thesis
  proof (cases "\<exists>ns. get data ''nodes'' = Some (JArray ns)")
    case True
    then obtain ns where ns: "get data ''nodes'' = Some (JArray ns)" by blast
    obtain r c1 where r: "import_nodes 0 c ns = (r, c1)"
      by (cases "import_nodes 0 c ns")
    from throws_import_nodes [of 0 c ns] r have t: "throws r \<longleftrightarrow> (\<exists>n \<in> set ns. bad_node n)"
      by simp
    have "throws (fst (import_data c data)) \<longleftrightarrow> throws r"
      using False ns r
      by (simp add: import_data_def split: completion.splits option.splits json.splits)
    with t ns show ?thesis
      by (simp add: has_nodes_array_def bad_nodes_def)
  next
    case no: False
    with False show ?thesis
      by (simp add: import_data_def has_nodes_array_def bad_nodes_def
          split: option.splits json.splits)
  qed
qed

lemma throws_importFlow:
  "throws (fst (importFlow P c t))
     \<longleftrightarrow> P t = None \<or> (\<exists>data. P t = Some data \<and> (\<not> has_nodes_array data \<or> bad_nodes data))"
  by (simp add: importFlow_def throws_import_data split: option.splits)

text \<open>
  C7, as stated, fails: the text \<open>{"nodes":[null]}\<close> is JSON and its document has an array
  \<open>nodes\<close>, and \<open>importFlow\<close> throws a TypeError on it, when it reads \<open>n.id\<close> of the null
  entry.
\<close>

theorem import_failure_counterexample:
  \<open>example_parse ''{"nodes":[null]}'' = Some (JObject [(''nodes'', JArray [JNull])])
   \<and> has_nodes_array (JObject [(''nodes'', JArray [JNull])])
   \<and> importFlow example_parse 0 ''{"nodes":[null]}'' = (Throws TypeError, 0)\<close>
  by (simp add: example_parse_def has_nodes_array_def importFlow_def import_data_def
      import_node_def)

text \<open>
  C7, amended. \<open>importFlow\<close> throws if the text is not JSON or the parsed document has no
  array-typed \<open>nodes\<close> field. It throws exactly when one of these holds or the \<open>nodes\<close> array
  has a null entry, an entry whose \<open>edges\<close> field is neither absent, null nor an array, or an
  entry whose \<open>edges\<close> array has a null entry. Whenever it throws, \<open>handleImport\<close> leaves the
  graph state and the selection as they were (\<open>loadFlow\<close> is not reached).
\<close>

theorem import_failure:
  "(throws (fst (importFlow P (counter app) t))
      \<longleftrightarrow> P t = None \<or> (\<exists>data. P t = Some data \<and> (\<not> has_nodes_array data \<or> bad_nodes data)))
   \<and> (P t = None \<or> (\<exists>data. P t = Some data \<and> \<not> has_nodes_array data)
        \<longrightarrow> throws (fst (importFlow P (counter app) t)))
   \<and> (throws (fst (importFlow P (counter app) t)) \<longrightarrow>
        (\<exists>err app'. handleImport P t app = Some (Some err, app')
           \<and> state app' = state app
           \<and> selectedNodeId app' = selectedNodeId app
           \<and> selectedEdge app' = selectedEdge app))
   \<and> (\<forall>app'. handleImport P t app = Some (None, app')
        \<longrightarrow> \<not> throws (fst (importFlow P (counter app) t)))"
proof -
  have c1: "throws (fst (importFlow P (counter app) t))
      \<longleftrightarrow> P t = None \<or> (\<exists>data. P t = Some data \<and> (\<not> has_nodes_array data \<or> bad_nodes data))"
    by (rule throws_importFlow)
  have c2: "throws (fst (importFlow P (counter app) t))"
    if "P t = None \<or> (\<exists>data. P t = Some data \<and> \<not> has_nodes_array data)"
    using that unfolding c1 by blast
  obtain r c' where r: "importFlow P (counter app) t = (r, c')"
    by (cases "importFlow P (counter app) t")
  have c3: "\<exists>err app'. handleImport P t app = Some (Some err, app')
           \<and> state app' = state app
           \<and> selectedNodeId app' = selectedNodeId app
           \<and> selectedEdge app' = selectedEdge app"
    if "throws (fst (importFlow P (counter app) t))"
  proof -
    from that r obtain err where "r = Throws err"
      by (cases r) simp_all
    with r have "handleImport P t app = Some (Some err, app\<lparr>counter := c'\<rparr>)"
      by (simp add: handleImport_def)
    then show ?thesis by simp
  qed
  have c4: "\<not> throws (fst (importFlow P (counter app) t))"
    if "handleImport P t app = Some (None, app')" for app'
    using that r by (cases r) (simp_all add: handleImport_def split: prod.splits)
  from c1 c2 c3 c4 show ?thesis
    by blast
qed

theorem import_failure_witness:
  \<open>example_parse ''{"nodes":5}'' = Some (JObject [(''nodes'', JNumber 5)])
   \<and> \<not> has_nodes_array (JObject [(''nodes'', JNumber 5)])
   \<and> handleImport example_parse ''{"nodes":5}''
        \<lparr> counter = 2, state = \<lparr>nodes = [ex_node ''welcome'' []], startNodeId = Some ''welcome''\<rparr>,
          selectedNodeId = Some ''welcome'', selectedEdge = None \<rparr>
      = Some (Some (PlainError ''Missing "nodes" array in JSON.''),
          \<lparr> counter = 2, state = \<lparr>nodes = [ex_node ''welcome'' []], startNodeId = Some ''welcome''\<rparr>,
            selectedNodeId = Some ''welcome'', selectedEdge = None \<rparr>)
   \<and> example_parse ''{"nodes":'' = None
   \<and> handleImport example_parse ''{"nodes":''
        \<lparr> counter = 2, state = \<lparr>nodes = [ex_node ''welcome'' []], startNodeId = Some ''welcome''\<rparr>,
          selectedNodeId = Some ''welcome'', selectedEdge = None \<rparr>
      = Some (Some SyntaxError,
          \<lparr> counter = 2, state = \<lparr>nodes = [ex_node ''welcome'' []], startNodeId = Some ''welcome''\<rparr>,
            selectedNodeId = Some ''welcome'', selectedEdge = None \<rparr>)\<close>
  using import_failure [of example_parse
      "\<lparr> counter = 2, state = \<lparr>nodes = [ex_node ''welcome'' []], startNodeId = Some ''welcome''\<rparr>,
          selectedNodeId = Some ''welcome'', selectedEdge = None \<rparr>" \<open>''{"nodes":5}''\<close>]
    import_failure [of example_parse
      "\<lparr> counter = 2, state = \<lparr>nodes = [ex_node ''welcome'' []], startNodeId = Some ''welcome''\<rparr>,
          selectedNodeId = Some ''welcome'', selectedEdge = None \<rparr>" \<open>''{"nodes":''\<close>]
  by (simp add: example_parse_def has_nodes_array_def handleImport_def importFlow_def
      import_data_def)


section \<open>Properties of the viewport\<close>

lemma rounding_id: "rounding (\<lambda>a. a)"
  by (simp add: rounding_def)

lemma rounding_error:
  assumes "rounding fl" and "1 / 8 \<le> a" and "a \<le> 4"
  shows "a - a / 2 ^ 53 \<le> fl a" and "fl a \<le> a + a / 2 ^ 53"
proof -
  from assms(1) have "\<forall>a. 1 / 8 \<le> a \<and> a \<le> 4 \<longrightarrow> \<bar>fl a - a\<bar> \<le> a / 2 ^ 53"
    unfolding rounding_def by blast
  with assms(2,3) have "\<bar>fl a - a\<bar> \<le> a / 2 ^ 53"
    by blast
  then show "a - a / 2 ^ 53 \<le> fl a" and "fl a \<le> a + a / 2 ^ 53"
    by linarith+
qed

lemma rounding_mono: "rounding fl \<Longrightarrow> a \<le> b \<Longrightarrow> fl a \<le> fl b"
  unfolding rounding_def by blast

lemma rounding_fixed: "rounding fl \<Longrightarrow> fl (1 / 4) = 1 / 4" "rounding fl \<Longrightarrow> fl (5 / 2) = 5 / 2"
  unfolding rounding_def by blast+

lemma factor_in:
  assumes "rounding fl"
  shows "1 \<le> fl (108 / 100)" and "fl (108 / 100) \<le> 2"
    and "107 / 100 \<le> fl (108 / 100) * (1 - 1 / 2 ^ 53)"
proof -
  have lo: "108 / 100 - (108 / 100) / 2 ^ 53 \<le> fl (108 / 100)"
    and hi: "fl (108 / 100) \<le> 108 / 100 + (108 / 100) / 2 ^ 53"
    by (rule rounding_error [OF assms]; simp)+
  from lo show "1 \<le> fl (108 / 100)" by simp
  from hi show "fl (108 / 100) \<le> 2" by simp
  have "(107 / 100 :: real) \<le> (108 / 100 - (108 / 100) / 2 ^ 53) * (1 - 1 / 2 ^ 53)"
    by simp
  also have "\<dots> \<le> fl (108 / 100) * (1 - 1 / 2 ^ 53)"
    using lo by (intro mult_right_mono) simp_all
  finally show "107 / 100 \<le> fl (108 / 100) * (1 - 1 / 2 ^ 53)" .
qed

lemma factor_out:
  assumes "rounding fl"
  shows "0 \<le> fl (92 / 100)" and "fl (92 / 100) \<le> 1"
proof -
  have lo: "92 / 100 - (92 / 100) / 2 ^ 53 \<le> fl (92 / 100)"
    and hi: "fl (92 / 100) \<le> 92 / 100 + (92 / 100) / 2 ^ 53"
    by (rule rounding_error [OF assms]; simp)+
  from lo show "0 \<le> fl (92 / 100)" by simp
  from hi show "fl (92 / 100) \<le> 1" by simp
qed

lemma handleWheel_in:
  assumes "rounding fl" and "d \<le> 0" and "1 / 4 \<le> zoom cs"
  shows "handleWheel fl d cs = cs\<lparr>zoom := min (5 / 2) (fl (zoom cs * fl (108 / 100)))\<rparr>"
proof -
  have "1 / 4 \<le> zoom cs * 1" using assms(3) by simp
  also have "\<dots> \<le> zoom cs * fl (108 / 100)"
    using assms(3) factor_in(1) [OF assms(1)] by (intro mult_left_mono) simp_all
  finally have "fl (1 / 4) \<le> fl (zoom cs * fl (108 / 100))"
    by (rule rounding_mono [OF assms(1)])
  then have "max (1 / 4) (fl (zoom cs * fl (108 / 100))) = fl (zoom cs * fl (108 / 100))"
    by (simp add: rounding_fixed [OF assms(1)] max_def)
  with assms(2) show ?thesis
    by (simp add: handleWheel_def)
qed

lemma handleWheel_out:
  assumes "rounding fl" and "d > 0" and "0 \<le> zoom cs" and "zoom cs \<le> 5 / 2"
  shows "handleWheel fl d cs = cs\<lparr>zoom := max (1 / 4) (fl (zoom cs * fl (92 / 100)))\<rparr>"
proof -
  have "zoom cs * fl (92 / 100) \<le> zoom cs * 1"
    using assms(3) factor_out(2) [OF assms(1)] by (intro mult_left_mono) simp_all
  also have "\<dots> \<le> 5 / 2" using assms(4) by simp
  finally have "fl (zoom cs * fl (92 / 100)) \<le> fl (5 / 2)"
    by (rule rounding_mono [OF assms(1)])
  then have "min (5 / 2) (max (1 / 4) (fl (zoom cs * fl (92 / 100))))
      = max (1 / 4) (fl (zoom cs * fl (92 / 100)))"
    by (simp add: rounding_fixed [OF assms(1)])
  with assms(2) show ?thesis
    by (simp add: handleWheel_def)
qed

lemma zoom_in_step:
  assumes "rounding fl" and "d \<le> 0" and "1 \<le> zoom cs" and "zoom cs \<le> 5 / 2"
  shows "min (5 / 2) (zoom cs * (107 / 100)) \<le> zoom (handleWheel fl d cs)"
    and "zoom (handleWheel fl d cs) \<le> 5 / 2"
proof -
  let ?a = "zoom cs * fl (108 / 100)"
  have z: "zoom (handleWheel fl d cs) = min (5 / 2) (max (1 / 4) (fl ?a))"
    using assms(2) by (simp add: handleWheel_def)
  show "zoom (handleWheel fl d cs) \<le> 5 / 2"
    unfolding z by simp
  show "min (5 / 2) (zoom cs * (107 / 100)) \<le> zoom (handleWheel fl d cs)"
  proof (cases "5 / 2 \<le> ?a")
    case True
    then have "fl (5 / 2) \<le> fl ?a"
      by (rule rounding_mono [OF assms(1)])
    then have "5 / 2 \<le> fl ?a"
      by (simp add: rounding_fixed [OF assms(1)])
    then show ?thesis
      unfolding z by simp
  next
    case False
    have "1 * 1 \<le> ?a"
      using assms(3) factor_in(1) [OF assms(1)] by (intro mult_mono) simp_all
    then have lo: "1 / 8 \<le> ?a" by simp
    from False have hi: "?a \<le> 4" by simp
    have "zoom cs * (107 / 100) \<le> zoom cs * (fl (108 / 100) * (1 - 1 / 2 ^ 53))"
      using assms(3) factor_in(3) [OF assms(1)] by (intro mult_left_mono) simp_all
    also have "\<dots> = ?a - ?a / 2 ^ 53"
      by (simp add: algebra_simps)
    also have "\<dots> \<le> fl ?a"
      by (rule rounding_error(1) [OF assms(1) lo hi])
    finally have "zoom cs * (107 / 100) \<le> max (1 / 4) (fl ?a)"
      by simp
    then show ?thesis
      unfolding z by (simp add: min_le_iff_disj)
  qed
qed

lemma zoom_in_ticks:
  assumes "rounding fl"
  shows "\<forall>d \<in> set ds. d \<le> 0 \<Longrightarrow> 1 \<le> zoom cs \<Longrightarrow> zoom cs \<le> 5 / 2
    \<Longrightarrow> min (5 / 2) (zoom cs * (107 / 100) ^ length ds) \<le> zoom (fold (handleWheel fl) ds cs)
      \<and> zoom (fold (handleWheel fl) ds cs) \<le> 5 / 2"
proof (induction ds arbitrary: cs)
  case Nil
  then show ?case by simp
next
  case (Cons d ds)
  let ?cs = "handleWheel fl d cs"
  from Cons.prems have d: "d \<le> 0" by simp
  note st = zoom_in_step [OF assms d Cons.prems(2,3)]
  have "1 \<le> min (5 / 2) (zoom cs * (107 / 100))"
    using Cons.prems(2) by simp
  with st(1) have one: "1 \<le> zoom ?cs"
    by linarith
  from Cons.prems(1) have "\<forall>d \<in> set ds. d \<le> 0" by simp
  from Cons.IH [OF this one st(2)]
  have ih: "min (5 / 2) (zoom ?cs * (107 / 100) ^ length ds) \<le> zoom (fold (handleWheel fl) ds ?cs)"
    and up: "zoom (fold (handleWheel fl) ds ?cs) \<le> 5 / 2"
    by simp_all
  have p: "(1::real) \<le> (107 / 100) ^ length ds"
    by (rule one_le_power) simp
  have A: "min (5 / 2) (zoom cs * (107 / 100) ^ length (d # ds))
      \<le> min (5 / 2) (zoom ?cs * (107 / 100) ^ length ds)"
  proof (cases "5 / 2 \<le> zoom cs * (107 / 100)")
    case True
    with st have z: "zoom ?cs = 5 / 2" by simp
    have "(5 / 2 :: real) * 1 \<le> 5 / 2 * (107 / 100) ^ length ds"
      using p by (intro mult_left_mono) simp_all
    then have "min (5 / 2) (zoom ?cs * (107 / 100) ^ length ds) = 5 / 2"
      unfolding z by (simp add: min_def)
    then show ?thesis
      by (simp only: min.cobounded1)
  next
    case False
    with st(1) have "zoom cs * (107 / 100) \<le> zoom ?cs" by simp
    then have "zoom cs * (107 / 100) * (107 / 100) ^ length ds \<le> zoom ?cs * (107 / 100) ^ length ds"
      using p by (intro mult_right_mono) simp_all
    then show ?thesis
      by (simp add: mult.assoc min_le_iff_disj)
  qed
  have f: "fold (handleWheel fl) (d # ds) cs = fold (handleWheel fl) ds ?cs"
    by simp
  from order_trans [OF A ih] up show ?case
    unfolding f by blast
qed

text \<open>
  C8. With arithmetic rounded by any \<open>fl\<close> that satisfies \<open>rounding\<close> (the exact reals are
  one instance): for a zoom \<open>z\<close> between \<open>0.25\<close> and \<open>2.5\<close>, a wheel tick with \<open>deltaY \<le> 0\<close>
  (zoom in) sets the zoom to \<open>min(2.5, z * 1.08)\<close> and a tick with \<open>deltaY > 0\<close> (zoom out)
  sets it to \<open>max(0.25, z * 0.92)\<close>; no tick changes the pan; and from the initial zoom \<open>1\<close>,
  after 100 zoom-in ticks the zoom is exactly \<open>2.5\<close>, and it is at most \<open>2.5\<close> after each of
  the ticks.
\<close>

theorem wheel_zoom:
  assumes "rounding fl"
  shows "(1 / 4 \<le> zoom cs \<and> zoom cs \<le> 5 / 2 \<longrightarrow>
            (\<forall>d \<le> 0. handleWheel fl d cs = cs\<lparr>zoom := min (5 / 2) (fl (zoom cs * fl (108 / 100)))\<rparr>)
          \<and> (\<forall>d > 0. handleWheel fl d cs = cs\<lparr>zoom := max (1 / 4) (fl (zoom cs * fl (92 / 100)))\<rparr>))
     \<and> (\<forall>d. pan (handleWheel fl d cs) = pan cs)
     \<and> (length ds = 100 \<and> (\<forall>d \<in> set ds. d \<le> 0) \<longrightarrow>
          zoom (fold (handleWheel fl) ds initialCanvas) = 5 / 2
          \<and> (\<forall>k \<le> 100. zoom (fold (handleWheel fl) (take k ds) initialCanvas) \<le> 5 / 2))"
proof -
  have c1: "handleWheel fl d cs = cs\<lparr>zoom := min (5 / 2) (fl (zoom cs * fl (108 / 100)))\<rparr>"
    if "1 / 4 \<le> zoom cs" and "d \<le> 0" for d
    using handleWheel_in [OF assms that(2,1)] .
  have c2: "handleWheel fl d cs = cs\<lparr>zoom := max (1 / 4) (fl (zoom cs * fl (92 / 100)))\<rparr>"
    if "1 / 4 \<le> zoom cs" and "zoom cs \<le> 5 / 2" and "d > 0" for d
    using that by (intro handleWheel_out [OF assms]) simp_all
  have c3: "pan (handleWheel fl d cs) = pan cs" for d
    by (simp add: handleWheel_def Let_def)
  have i: "1 \<le> zoom initialCanvas" "zoom initialCanvas \<le> 5 / 2"
    by (simp_all add: initialCanvas_def)
  have c5: "zoom (fold (handleWheel fl) (take k ds) initialCanvas) \<le> 5 / 2"
    if "\<forall>d \<in> set ds. d \<le> 0" for k
  proof -
    from that have "\<forall>d \<in> set (take k ds). d \<le> 0"
      by (auto dest: in_set_takeD)
    from zoom_in_ticks [OF assms this i] show ?thesis by simp
  qed
  have c4: "zoom (fold (handleWheel fl) ds initialCanvas) = 5 / 2"
    if len: "length ds = 100" and neg: "\<forall>d \<in> set ds. d \<le> 0"
  proof -
    have "(5 / 2 :: real) \<le> (107 / 100) ^ 14"
      by (simp add: power_divide)
    also have "\<dots> \<le> (107 / 100) ^ 100"
      by (rule power_increasing) simp_all
    finally have "min (5 / 2) (zoom initialCanvas * (107 / 100) ^ length ds) = 5 / 2"
      by (simp add: len initialCanvas_def)
    with zoom_in_ticks [OF assms neg i] show ?thesis
      by simp
  qed
  from c1 c2 c3 c4 c5 show ?thesis
    by blast
qed

theorem wheel_zoom_witness:
  "rounding (\<lambda>a. a)
   \<and> handleWheel (\<lambda>a. a) (- 1) initialCanvas = \<lparr> pan = (0, 0), zoom = 27 / 25 \<rparr>
   \<and> handleWheel (\<lambda>a. a) 1 initialCanvas = \<lparr> pan = (0, 0), zoom = 23 / 25 \<rparr>
   \<and> zoom (fold (handleWheel (\<lambda>a. a)) (replicate 100 (- 1)) initialCanvas) = 5 / 2"
proof -
  have r: "rounding (\<lambda>a. a)"
    by (rule rounding_id)
  have ds: "length (replicate 100 (- 1 :: real)) = 100 \<and> (\<forall>d \<in> set (replicate 100 (- 1 :: real)). d \<le> 0)"
    by simp
  from wheel_zoom [OF r, of initialCanvas "replicate 100 (- 1)"] ds
  have "zoom (fold (handleWheel (\<lambda>a. a)) (replicate 100 (- 1)) initialCanvas) = 5 / 2"
    by blast
  moreover have "handleWheel (\<lambda>a. a) (- 1) initialCanvas = \<lparr> pan = (0, 0), zoom = 27 / 25 \<rparr>"
    "handleWheel (\<lambda>a. a) 1 initialCanvas = \<lparr> pan = (0, 0), zoom = 23 / 25 \<rparr>"
    by (simp_all add: handleWheel_def initialCanvas_def)
  ultimately show ?thesis
    using r by blast
qed

end
